theory Spec2Isabelle
  imports Main "HOL-Library.AList"
begin

section \<open>Paths\<close>

text \<open>
  A \<open>pathlib.Path\<close> is modelled by its POSIX string (what \<open>as_posix()\<close> returns).
  A POSIX path is absolute when it starts with a slash.
\<close>

type_synonym path = string

fun is_absolute :: "path \<Rightarrow> bool" where
  "is_absolute [] = False"
| "is_absolute (c # cs) = (c = CHR ''/'')"

text \<open>Python's \<open>str.split("/")\<close>: the empty string gives one empty segment.\<close>

fun split_slash :: "string \<Rightarrow> string list" where
  "split_slash [] = [[]]"
| "split_slash (c # cs) =
     (if c = CHR ''/'' then [] # split_slash cs
      else (case split_slash cs of
              [] \<Rightarrow> [[c]]
            | w # ws \<Rightarrow> (c # w) # ws))"

subsection \<open>\<open>is_in_root\<close>\<close>

text \<open>
  The \<open>while split:\<close> loop of \<open>is_in_root\<close>: \<open>split.pop(0)\<close> takes the head,
  the level is a Python integer, and the function returns \<open>False\<close> as soon as the
  level is negative.
\<close>

fun in_root_loop :: "string list \<Rightarrow> int \<Rightarrow> bool" where
  "in_root_loop [] level = True"
| "in_root_loop (item # split) level =
     (let level' = (if item = ''..'' then level - 1
                    else if item = ''.'' then level
                    else level + 1)
      in if level' < 0 then False else in_root_loop split level')"

definition is_in_root :: "path \<Rightarrow> bool" where
  "is_in_root pos = in_root_loop (split_slash pos) 0"

text \<open>
  The depth counter as the specification words it: each \<open>..\<close> decrements, each
  \<open>.\<close> is a no-op, any other segment increments.
\<close>

definition depth_step :: "int \<Rightarrow> string \<Rightarrow> int" where
  "depth_step d seg = (if seg = ''..'' then d - 1 else if seg = ''.'' then d else d + 1)"

definition depth_after :: "int \<Rightarrow> string list \<Rightarrow> int" where
  "depth_after d segs = foldl depth_step d segs"

section \<open>Objects, errors and extension hooks\<close>

text \<open>
  Resources (\<open>BaseSharedIO\<close>) and specs (\<open>BaseIOSpec\<close>) are Python objects compared
  and hashed by identity, so each is a handle into a store of objects. A group is the
  identity of the model or space the caller passes; \<open>None\<close> is Python's \<open>None\<close>.
\<close>

type_synonym io_id = nat
type_synonym spec_id = nat
type_synonym group = nat
type_synonym key = "group option \<times> path"
type_synonym pyval = nat
type_synonym hook_exn = string

text \<open>
  The exceptions the code raises itself, and \<open>HookRaised\<close> for an exception that
  leaves one of the extension hooks and propagates through the manager.
\<close>

datatype error =
    ValueError string
  | RuntimeError string
  | KeyError
  | AttributeError
  | HookRaised hook_exn

record io_obj =
  io_path :: path
  io_specs :: "spec_id list"
  io_load_from :: "pyval option"

text \<open>
  \<open>_specs\<close> is the dict \<open>{id(spec): spec}\<close>: its keys in insertion order.
  \<open>spec_is_hidden = None\<close> is an object without the attribute \<open>_is_hidden\<close>;
  \<open>spec_manager = Some ()\<close> is a reference to the manager.
\<close>

record spec_obj =
  spec_manager :: "unit option"
  spec_io :: "io_id option"
  spec_is_hidden :: "bool option"

text \<open>
  The state dictionary of a spec: the outer option says whether the key is present,
  the inner one whether its value is \<open>None\<close>.
\<close>

record pstate =
  st_manager :: "unit option option"
  st_io :: "io_id option option"
  st_data :: "io_id option option"
  st_is_hidden :: "bool option"

text \<open>Every call of an extension hook that has an effect is recorded, in order.\<close>

datatype event =
    LoadValue spec_id
  | IOUpdateValue io_id pyval pyval
  | SpecUpdateValue spec_id pyval pyval
  | IOUpdatePath io_id path
  | Serialize spec_id
  | Pickle spec_id
  | Unserialize spec_id
  | Unpickle spec_id

text \<open>
  The hooks raise \<open>NotImplementedError\<close> in the base classes and are overridden by the
  concrete kinds, which are not part of this development. Their outcome is a parameter:
  \<open>Some e\<close> or \<open>Inl e\<close> when the hook raises \<open>e\<close>. A hook does not call back into
  the manager: it changes neither the index, nor the dependents of a resource, nor the
  fields \<open>_manager\<close>, \<open>_io\<close> and \<open>_is_hidden\<close> of a spec.
\<close>

record hooks =
  on_load_value :: "spec_id \<Rightarrow> hook_exn option"
  can_update_value :: "spec_id \<Rightarrow> pyval \<Rightarrow> pyval \<Rightarrow> hook_exn + bool"
  io_on_update_value :: "io_id \<Rightarrow> pyval \<Rightarrow> pyval \<Rightarrow> hook_exn option"
  spec_on_update_value :: "spec_id \<Rightarrow> pyval \<Rightarrow> pyval \<Rightarrow> hook_exn option"
  can_add_other :: "spec_id \<Rightarrow> spec_id \<Rightarrow> hook_exn + bool"
  on_serialize :: "spec_id \<Rightarrow> pstate \<Rightarrow> hook_exn + pstate"
  on_pickle :: "spec_id \<Rightarrow> pstate \<Rightarrow> hook_exn + pstate"
  on_unserialize :: "spec_id \<Rightarrow> pstate \<Rightarrow> hook_exn option"
  on_unpickle :: "spec_id \<Rightarrow> pstate \<Rightarrow> hook_exn option"

section \<open>\<open>BiDict\<close>\<close>

text \<open>
  A Python dict is an association list with distinct keys in insertion order:
  \<open>AList.update\<close> replaces in place or appends, \<open>AList.delete\<close> removes.
\<close>

record ('k, 'v) bidict =
  forward :: "('k \<times> 'v) list"
  inverse_map :: "('v \<times> 'k) list"

definition contains :: "('a \<times> 'b) list \<Rightarrow> 'a \<Rightarrow> bool" where
  "contains d k = (map_of d k \<noteq> None)"

text \<open>\<open>BiDict.__init__\<close>: the loop over the items of the initial dict.\<close>

fun bidict_init_loop :: "('k \<times> 'v) list \<Rightarrow> ('v \<times> 'k) list \<Rightarrow> error + ('v \<times> 'k) list" where
  "bidict_init_loop [] acc = Inr acc"
| "bidict_init_loop ((k, v) # items) acc =
     (if contains acc v then Inl (ValueError ''not injective mapping'')
      else bidict_init_loop items (AList.update v k acc))"

definition bidict_init :: "('k \<times> 'v) list \<Rightarrow> error + ('k, 'v) bidict" where
  "bidict_init items =
     (case bidict_init_loop items [] of
        Inl e \<Rightarrow> Inl e
      | Inr acc \<Rightarrow> Inr \<lparr>forward = items, inverse_map = acc\<rparr>)"

text \<open>The two statements that end \<open>__setitem__\<close>.\<close>

definition bidict_store :: "'k \<Rightarrow> 'v \<Rightarrow> ('k, 'v) bidict \<Rightarrow> ('k, 'v) bidict" where
  "bidict_store k v d =
     d\<lparr>forward := AList.update k v (forward d), inverse_map := AList.update v k (inverse_map d)\<rparr>"

definition bidict_setitem :: "'k \<Rightarrow> 'v \<Rightarrow> ('k, 'v) bidict \<Rightarrow> error + ('k, 'v) bidict" where
  "bidict_setitem k v d =
     (case map_of (forward d) k of
        Some old \<Rightarrow>
          (if v = old then Inr d
           else if \<not> contains (inverse_map d) v then
             (if contains (inverse_map d) old
              then Inr (bidict_store k v (d\<lparr>inverse_map := AList.delete old (inverse_map d)\<rparr>))
              else Inl KeyError)
           else Inl (ValueError ''not injective key-value''))
      | None \<Rightarrow> Inr (bidict_store k v d))"

definition bidict_delitem :: "'k \<Rightarrow> ('k, 'v) bidict \<Rightarrow> error + ('k, 'v) bidict" where
  "bidict_delitem k d =
     (case map_of (forward d) k of
        None \<Rightarrow> Inl KeyError
      | Some v \<Rightarrow>
          (if contains (inverse_map d) v
           then Inr (d\<lparr>inverse_map := AList.delete v (inverse_map d),
                       forward := AList.delete k (forward d)\<rparr>)
           else Inl KeyError))"

text \<open>
  The invariant of the index: the dict and its \<open>inverse\<close> are dicts (distinct keys),
  every entry of one is mirrored in the other.
\<close>

definition bidict_inv :: "('k, 'v) bidict \<Rightarrow> bool" where
  "bidict_inv d =
     (list_all (\<lambda>(k, v). map_of (inverse_map d) v = Some k) (forward d)
      \<and> list_all (\<lambda>(v, k). map_of (forward d) k = Some v) (inverse_map d)
      \<and> distinct (map fst (forward d)) \<and> distinct (map fst (inverse_map d)))"

definition mirrored :: "('a \<rightharpoonup> 'b) \<Rightarrow> ('b \<rightharpoonup> 'a) \<Rightarrow> bool" where
  "mirrored f g = (\<forall>k v. f k = Some v \<longleftrightarrow> g v = Some k)"

section \<open>\<open>IOManager\<close>\<close>

text \<open>
  The manager with the objects it refers to. \<open>next_io\<close> and \<open>next_spec\<close> are the
  identities of the next objects created. A resource object is always true in a Python
  condition, so \<open>if a_io\<close> and \<open>if not res\<close> test for \<open>None\<close>; a key is a pair
  and always true, so \<open>if key\<close> tests that the search found one.
\<close>

record mstate =
  ios :: "(key, io_id) bidict"
  serializing :: "bool option"
  io_heap :: "io_id \<Rightarrow> io_obj"
  spec_heap :: "spec_id \<Rightarrow> spec_obj"
  next_io :: nat
  next_spec :: nat
  trace :: "event list"

definition new_io_obj :: "path \<Rightarrow> pyval option \<Rightarrow> io_obj" where
  "new_io_obj p lf = \<lparr>io_path = p, io_specs = [], io_load_from = lf\<rparr>"

definition new_spec_obj :: spec_obj where
  "new_spec_obj = \<lparr>spec_manager = None, spec_io = None, spec_is_hidden = None\<rparr>"

text \<open>\<open>IOManager.__init__\<close>, with empty object stores.\<close>

definition init_manager :: mstate where
  "init_manager =
     \<lparr>ios = \<lparr>forward = [], inverse_map = []\<rparr>, serializing = None,
      io_heap = (\<lambda>_. new_io_obj [] None), spec_heap = (\<lambda>_. new_spec_obj),
      next_io = 0, next_spec = 0, trace = []\<rparr>"

definition log :: "event \<Rightarrow> mstate \<Rightarrow> mstate" where
  "log e s = s\<lparr>trace := trace s @ [e]\<rparr>"

definition get_io_key :: "group option \<Rightarrow> path \<Rightarrow> key" where
  "get_io_key io_group p = (if is_absolute p then (None, p) else (io_group, p))"

definition get_io :: "mstate \<Rightarrow> group option \<Rightarrow> path \<Rightarrow> io_id option" where
  "get_io s io_group p = map_of (forward (ios s)) (get_io_key io_group p)"

text \<open>\<open>cls(path, self, load_from)\<close>: a new object with \<open>BaseSharedIO.__init__\<close>.\<close>

definition alloc_io :: "path \<Rightarrow> pyval option \<Rightarrow> mstate \<Rightarrow> io_id \<times> mstate" where
  "alloc_io p lf s =
     (next_io s, s\<lparr>io_heap := (io_heap s)(next_io s := new_io_obj p lf),
                   next_io := Suc (next_io s)\<rparr>)"

definition set_ios :: "error + (key, io_id) bidict \<Rightarrow> 'a \<Rightarrow> mstate \<Rightarrow> (error + 'a) \<times> mstate" where
  "set_ios r x s = (case r of Inl e \<Rightarrow> (Inl e, s) | Inr d \<Rightarrow> (Inr x, s\<lparr>ios := d\<rparr>))"

definition new_io :: "mstate \<Rightarrow> group option \<Rightarrow> path \<Rightarrow> pyval option \<Rightarrow> (error + io_id) \<times> mstate" where
  "new_io s io_group p lf =
     (case alloc_io p lf s of (a_io, s1) \<Rightarrow>
        (case get_io s1 io_group (io_path (io_heap s1 a_io)) of
           None \<Rightarrow>
             set_ios (bidict_setitem (get_io_key io_group (io_path (io_heap s1 a_io))) a_io (ios s1))
               a_io s1
         | Some _ \<Rightarrow> (Inl (RuntimeError ''must not happen''), s1)))"

definition del_io :: "mstate \<Rightarrow> io_id \<Rightarrow> (error + unit) \<times> mstate" where
  "del_io s a_io =
     (if io_specs (io_heap s a_io) \<noteq> []
      then (Inl (RuntimeError ''specs must be deleted beforehand''), s)
      else (case List.find (\<lambda>(k, v). v = a_io) (forward (ios s)) of
              None \<Rightarrow> (Inr (), s)
            | Some (k, v) \<Rightarrow> set_ios (bidict_delitem k (ios s)) () s))"

definition restore_io :: "mstate \<Rightarrow> group option \<Rightarrow> io_id \<Rightarrow> (error + unit) \<times> mstate" where
  "restore_io s io_group a_io =
     (case get_io s io_group (io_path (io_heap s a_io)) of
        None \<Rightarrow>
          set_ios (bidict_setitem (get_io_key io_group (io_path (io_heap s a_io))) a_io (ios s)) () s
      | Some _ \<Rightarrow> (Inr (), s))"

definition get_or_create_io ::
  "mstate \<Rightarrow> group option \<Rightarrow> path \<Rightarrow> pyval option \<Rightarrow> (error + io_id) \<times> mstate" where
  "get_or_create_io s io_group p lf =
     (case get_io s io_group p of
        Some a_io \<Rightarrow> (Inr a_io, s)
      | None \<Rightarrow> new_io s io_group p lf)"

text \<open>\<open>BaseSharedIO._can_add_spec\<close>: \<open>all\<close> over a generator stops at the first false.\<close>

fun can_add_spec :: "hooks \<Rightarrow> spec_id list \<Rightarrow> spec_id \<Rightarrow> hook_exn + bool" where
  "can_add_spec h [] spec = Inr True"
| "can_add_spec h (c # cs) spec =
     (case can_add_other h c spec of
        Inl e \<Rightarrow> Inl e
      | Inr ok \<Rightarrow> (if ok then can_add_spec h cs spec else Inr False))"

definition set_io_specs :: "io_id \<Rightarrow> spec_id list \<Rightarrow> mstate \<Rightarrow> mstate" where
  "set_io_specs a_io xs s = s\<lparr>io_heap := (io_heap s)(a_io := (io_heap s a_io)\<lparr>io_specs := xs\<rparr>)\<rparr>"

definition add_spec :: "hooks \<Rightarrow> mstate \<Rightarrow> io_id \<Rightarrow> spec_id \<Rightarrow> (error + unit) \<times> mstate" where
  "add_spec h s a_io spec =
     (if spec \<notin> set (io_specs (io_heap s a_io)) then
        (case can_add_spec h (io_specs (io_heap s a_io)) spec of
           Inl e \<Rightarrow> (Inl (HookRaised e), s)
         | Inr ok \<Rightarrow>
             (if ok then (Inr (), set_io_specs a_io (io_specs (io_heap s a_io) @ [spec]) s)
              else (Inl (ValueError ''cannot add spec''), s)))
      else (Inr (), s))"

definition del_spec :: "mstate \<Rightarrow> spec_id \<Rightarrow> (error + unit) \<times> mstate" where
  "del_spec s spec =
     (case spec_io (spec_heap s spec) of
        None \<Rightarrow> (Inl AttributeError, s)
      | Some a_io \<Rightarrow>
          (if spec \<in> set (io_specs (io_heap s a_io)) then
             (let s1 = set_io_specs a_io (removeAll spec (io_specs (io_heap s a_io))) s
              in if io_specs (io_heap s1 a_io) = [] then del_io s1 a_io else (Inr (), s1))
           else (Inr (), s)))"

text \<open>
  \<open>new_spec\<close>. The body of its \<open>try\<close> block, then the whole method with the
  \<open>except\<close> clause that removes the key when the resource has no spec.
\<close>

definition alloc_spec :: "mstate \<Rightarrow> spec_id \<times> mstate" where
  "alloc_spec s =
     (next_spec s, s\<lparr>spec_heap := (spec_heap s)(next_spec s := new_spec_obj),
                     next_spec := Suc (next_spec s)\<rparr>)"

definition set_spec_manager :: "spec_id \<Rightarrow> unit option \<Rightarrow> mstate \<Rightarrow> mstate" where
  "set_spec_manager spec m s =
     s\<lparr>spec_heap := (spec_heap s)(spec := (spec_heap s spec)\<lparr>spec_manager := m\<rparr>)\<rparr>"

definition set_spec_io :: "spec_id \<Rightarrow> io_id option \<Rightarrow> mstate \<Rightarrow> mstate" where
  "set_spec_io spec r s =
     s\<lparr>spec_heap := (spec_heap s)(spec := (spec_heap s spec)\<lparr>spec_io := r\<rparr>)\<rparr>"

definition set_spec_is_hidden :: "spec_id \<Rightarrow> bool option \<Rightarrow> mstate \<Rightarrow> mstate" where
  "set_spec_is_hidden spec b s =
     s\<lparr>spec_heap := (spec_heap s)(spec := (spec_heap s spec)\<lparr>spec_is_hidden := b\<rparr>)\<rparr>"

definition new_spec_try :: "hooks \<Rightarrow> mstate \<Rightarrow> io_id \<Rightarrow> spec_id \<Rightarrow> (error + unit) \<times> mstate" where
  "new_spec_try h s a_io spec =
     (case on_load_value h spec of
        Some e \<Rightarrow> (Inl (HookRaised e), log (LoadValue spec) s)
      | None \<Rightarrow> add_spec h (log (LoadValue spec) s) a_io spec)"

definition new_spec ::
  "hooks \<Rightarrow> mstate \<Rightarrow> group option \<Rightarrow> path \<Rightarrow> pyval option \<Rightarrow> (error + spec_id) \<times> mstate" where
  "new_spec h s io_group p lf =
     (case alloc_spec s of (spec, s1) \<Rightarrow>
        (case get_or_create_io (set_spec_manager spec (Some ()) s1) io_group p lf of
           (Inl e, s2) \<Rightarrow> (Inl e, s2)
         | (Inr a_io, s2) \<Rightarrow>
             (case new_spec_try h (set_spec_io spec (Some a_io) s2) a_io spec of
                (Inr u, s3) \<Rightarrow> (Inr spec, s3)
              | (Inl e, s3) \<Rightarrow>
                  (if io_specs (io_heap s3 a_io) = []
                   then (case bidict_delitem (get_io_key io_group (io_path (io_heap s3 a_io))) (ios s3) of
                           Inl e' \<Rightarrow> (Inl e', s3)
                         | Inr d \<Rightarrow> (Inl e, s3\<lparr>ios := d\<rparr>))
                   else (Inl e, s3)))))"

text \<open>
  \<open>update_spec_value\<close>. The message of the \<open>ValueError\<close> is given without the
  \<open>repr\<close> of the spec in front.
\<close>

definition update_spec_value ::
  "hooks \<Rightarrow> mstate \<Rightarrow> spec_id \<Rightarrow> pyval \<Rightarrow> pyval \<Rightarrow> (error + unit) \<times> mstate" where
  "update_spec_value h s spec v kwargs =
     (case can_update_value h spec v kwargs of
        Inl e \<Rightarrow> (Inl (HookRaised e), s)
      | Inr ok \<Rightarrow>
          (if ok then
             (case spec_io (spec_heap s spec) of
                None \<Rightarrow> (Inl AttributeError, s)
              | Some a_io \<Rightarrow>
                  (case io_on_update_value h a_io v kwargs of
                     Some e \<Rightarrow> (Inl (HookRaised e), log (IOUpdateValue a_io v kwargs) s)
                   | None \<Rightarrow>
                       (case spec_on_update_value h spec v kwargs of
                          Some e \<Rightarrow>
                            (Inl (HookRaised e),
                             log (SpecUpdateValue spec v kwargs) (log (IOUpdateValue a_io v kwargs) s))
                        | None \<Rightarrow>
                            (Inr (),
                             log (SpecUpdateValue spec v kwargs) (log (IOUpdateValue a_io v kwargs) s)))))
           else (Inl (ValueError ''does not allow to replace its value''), s)))"

text \<open>\<open>BaseSharedIO._on_update_path\<close>, as the base class has it.\<close>

definition io_on_update_path :: "io_id \<Rightarrow> path \<Rightarrow> mstate \<Rightarrow> mstate" where
  "io_on_update_path a_io p s =
     log (IOUpdatePath a_io p) (s\<lparr>io_heap := (io_heap s)(a_io := (io_heap s a_io)\<lparr>io_path := p\<rparr>)\<rparr>)"

definition update_path :: "mstate \<Rightarrow> io_id \<Rightarrow> path \<Rightarrow> (error + unit) \<times> mstate" where
  "update_path s a_io p =
     (case map_of (inverse_map (ios s)) a_io of
        None \<Rightarrow> (Inl KeyError, s)
      | Some (grp, path_old) \<Rightarrow>
          (if p = path_old then (Inr (), s)
           else
             (let k = get_io_key grp p in
              if contains (forward (ios s)) k then (Inl (ValueError ''cannot change path''), s)
              else
                (case bidict_delitem (grp, path_old) (ios s) of
                   Inl e \<Rightarrow> (Inl e, s)
                 | Inr d \<Rightarrow>
                     (let s1 = io_on_update_path a_io p (s\<lparr>ios := d\<rparr>)
                      in set_ios (bidict_setitem k a_io (ios s1)) () s1)))))"

section \<open>Serialisation hooks of \<open>BaseIOSpec\<close>\<close>

definition getstate :: "hooks \<Rightarrow> mstate \<Rightarrow> spec_id \<Rightarrow> (error + pstate) \<times> mstate" where
  "getstate h s spec =
     (let st = \<lparr>st_manager = Some (spec_manager (spec_heap s spec)),
                st_io = Some (spec_io (spec_heap s spec)),
                st_data = None,
                st_is_hidden = spec_is_hidden (spec_heap s spec)\<rparr>
      in case spec_manager (spec_heap s spec) of
           None \<Rightarrow> (Inl AttributeError, s)
         | Some m \<Rightarrow>
             (case serializing s of
                Some True \<Rightarrow>
                  (case on_serialize h spec st of
                     Inl e \<Rightarrow> (Inl (HookRaised e), log (Serialize spec) s)
                   | Inr st' \<Rightarrow> (Inr st', log (Serialize spec) s))
              | Some False \<Rightarrow>
                  (case on_pickle h spec st of
                     Inl e \<Rightarrow> (Inl (HookRaised e), log (Pickle spec) s)
                   | Inr st' \<Rightarrow> (Inr st', log (Pickle spec) s))
              | None \<Rightarrow> (Inl (RuntimeError ''must not happen''), s)))"

text \<open>
  \<open>__setstate__\<close>: the three attribute assignments, each of which can raise
  \<open>KeyError\<close>, then the dispatch on the mode. In the last branch the source builds a
  \<open>RuntimeError\<close> and does not raise it.
\<close>

definition setstate_dispatch ::
  "hooks \<Rightarrow> mstate \<Rightarrow> spec_id \<Rightarrow> pstate \<Rightarrow> (error + unit) \<times> mstate" where
  "setstate_dispatch h s spec st =
     (case spec_manager (spec_heap s spec) of
        None \<Rightarrow> (Inl AttributeError, s)
      | Some m \<Rightarrow>
          (case serializing s of
             Some True \<Rightarrow>
               (case on_unserialize h spec st of
                  Some e \<Rightarrow> (Inl (HookRaised e), log (Unserialize spec) s)
                | None \<Rightarrow>
                    (case spec_io (spec_heap s spec) of
                       None \<Rightarrow> (Inl AttributeError, log (Unserialize spec) s)
                     | Some a_io \<Rightarrow> add_spec h (log (Unserialize spec) s) a_io spec))
           | Some False \<Rightarrow>
               (case on_unpickle h spec st of
                  Some e \<Rightarrow> (Inl (HookRaised e), log (Unpickle spec) s)
                | None \<Rightarrow> (Inr (), log (Unpickle spec) s))
           | None \<Rightarrow> (Inr (), s)))"

definition setstate :: "hooks \<Rightarrow> mstate \<Rightarrow> spec_id \<Rightarrow> pstate \<Rightarrow> (error + unit) \<times> mstate" where
  "setstate h s spec st =
     (case st_manager st of
        None \<Rightarrow> (Inl KeyError, s)
      | Some m \<Rightarrow>
          (let s1 = set_spec_manager spec m s in
           case (case st_io st of Some r \<Rightarrow> Some r | None \<Rightarrow> st_data st) of
             None \<Rightarrow> (Inl KeyError, s1)
           | Some r \<Rightarrow>
               (let s2 = set_spec_io spec r s1;
                    s3 = set_spec_is_hidden spec
                           (case st_is_hidden st of Some b \<Rightarrow> Some b | None \<Rightarrow> Some False) s2
                in setstate_dispatch h s3 spec st)))"

section \<open>Well-formed manager states\<close>

text \<open>
  In a well-formed manager the index is mirrored, every registered resource is an
  allocated object, and every registered resource has a dependent.
\<close>

definition index_fresh :: "mstate \<Rightarrow> bool" where
  "index_fresh s = list_all (\<lambda>(k, v). v < next_io s) (forward (ios s))"

definition no_orphan :: "mstate \<Rightarrow> bool" where
  "no_orphan s = list_all (\<lambda>(k, v). io_specs (io_heap s v) \<noteq> []) (forward (ios s))"

definition manager_inv :: "mstate \<Rightarrow> bool" where
  "manager_inv s = (bidict_inv (ios s) \<and> index_fresh s \<and> no_orphan s)"

text \<open>
  The states a manager reaches through completed calls, whether they return or raise.
  \<open>restore_io\<close> is given an allocated resource that is not registered and has a
  dependent; \<open>get_or_create_io\<close> only runs as a step of \<open>new_spec\<close>.
\<close>

inductive reachable :: "hooks \<Rightarrow> mstate \<Rightarrow> bool" for h :: hooks where
  r_init: "reachable h init_manager"
| r_new_spec: "reachable h s \<Longrightarrow> reachable h (snd (new_spec h s io_group p lf))"
| r_add_spec: "reachable h s \<Longrightarrow> reachable h (snd (add_spec h s a_io spec))"
| r_del_spec: "reachable h s \<Longrightarrow> reachable h (snd (del_spec s spec))"
| r_update_path: "reachable h s \<Longrightarrow> reachable h (snd (update_path s a_io p))"
| r_update_spec_value:
    "reachable h s \<Longrightarrow> reachable h (snd (update_spec_value h s spec v kwargs))"
| r_setstate: "reachable h s \<Longrightarrow> reachable h (snd (setstate h s spec st))"
| r_serializing: "reachable h s \<Longrightarrow> reachable h (s\<lparr>serializing := m\<rparr>)"
| r_restore_io:
    "reachable h s \<Longrightarrow> a_io < next_io s \<Longrightarrow> \<not> contains (inverse_map (ios s)) a_io \<Longrightarrow>
     io_specs (io_heap s a_io) \<noteq> [] \<Longrightarrow> reachable h (snd (restore_io s io_group a_io))"

text \<open>
  Two concrete sets of hooks: the base classes, whose hooks all raise
  \<open>NotImplementedError\<close>, and a kind whose hooks all return.
\<close>

definition base_hooks :: hooks where
  "base_hooks =
     \<lparr>on_load_value = (\<lambda>_. Some ''NotImplementedError''),
      can_update_value = (\<lambda>_ _ _. Inl ''NotImplementedError''),
      io_on_update_value = (\<lambda>_ _ _. Some ''NotImplementedError''),
      spec_on_update_value = (\<lambda>_ _ _. Some ''NotImplementedError''),
      can_add_other = (\<lambda>_ _. Inl ''NotImplementedError''),
      on_serialize = (\<lambda>_ _. Inl ''NotImplementedError''),
      on_pickle = (\<lambda>_ _. Inl ''NotImplementedError''),
      on_unserialize = (\<lambda>_ _. Some ''NotImplementedError''),
      on_unpickle = (\<lambda>_ _. Some ''NotImplementedError'')\<rparr>"

definition plain_hooks :: hooks where
  "plain_hooks =
     \<lparr>on_load_value = (\<lambda>_. None),
      can_update_value = (\<lambda>_ _ _. Inr True),
      io_on_update_value = (\<lambda>_ _ _. None),
      spec_on_update_value = (\<lambda>_ _ _. None),
      can_add_other = (\<lambda>_ _. Inr True),
      on_serialize = (\<lambda>_ st. Inr st),
      on_pickle = (\<lambda>_ st. Inr st),
      on_unserialize = (\<lambda>_ _. None),
      on_unpickle = (\<lambda>_ _. None)\<rparr>"

text \<open>
  A manager just unpickled: one resource object with the relative path \<open>x.dat\<close>
  and one dependent, not yet in the index.
\<close>

definition restored_state :: mstate where
  "restored_state =
     init_manager\<lparr>io_heap := (io_heap init_manager)
                     (0 := \<lparr>io_path = ''x.dat'', io_specs = [0], io_load_from = None\<rparr>),
                   spec_heap := (spec_heap init_manager)
                     (0 := \<lparr>spec_manager = Some (), spec_io = Some 0, spec_is_hidden = Some False\<rparr>),
                   next_io := 1, next_spec := 1\<rparr>"

text \<open>
  The same manager after the resource has been restored for group 1 and for group 2,
  and then after it has been renamed to \<open>y.dat\<close> and restored for group 1 again.
\<close>

definition double_state :: mstate where
  "double_state = snd (restore_io (snd (restore_io restored_state (Some 1) 0)) (Some 2) 0)"

definition renamed_state :: mstate where
  "renamed_state = snd (restore_io (snd (update_path double_state 0 ''y.dat'')) (Some 1) 0)"

text \<open>Hooks of a kind that refuses every update, and a manager with one spec.\<close>

definition frozen_hooks :: hooks where
  "frozen_hooks = plain_hooks\<lparr>can_update_value := (\<lambda>_ _ _. Inr False)\<rparr>"

definition one_spec_state :: mstate where
  "one_spec_state = snd (new_spec plain_hooks init_manager (Some 1) ''x.dat'' None)"

text \<open>A manager with two resources of group 1, \<open>x.dat\<close> and \<open>y.dat\<close>, one spec each.\<close>

definition two_spec_state :: mstate where
  "two_spec_state = snd (new_spec plain_hooks one_spec_state (Some 1) ''y.dat'' None)"

text \<open>A manager with one resource and two specs on it.\<close>

definition shared_state :: mstate where
  "shared_state = snd (new_spec plain_hooks one_spec_state (Some 1) ''x.dat'' None)"

text \<open>
  A step that leaves the index and the allocation of resources alone and empties the
  dependents of no resource.
\<close>

definition index_same :: "mstate \<Rightarrow> mstate \<Rightarrow> bool" where
  "index_same s s' =
     (ios s' = ios s \<and> next_io s' = next_io s
      \<and> (\<forall>r. io_specs (io_heap s r) \<noteq> [] \<longrightarrow> io_specs (io_heap s' r) \<noteq> []))"

text \<open>The resource that \<open>get_or_create_io\<close> returns: the registered one, or a new one.\<close>

definition bound_io :: "mstate \<Rightarrow> group option \<Rightarrow> path \<Rightarrow> io_id" where
  "bound_io s io_group p = (case get_io s io_group p of Some a_io \<Rightarrow> a_io | None \<Rightarrow> next_io s)"

section \<open>Properties of \<open>is_in_root\<close>\<close>

lemma depth_after_Nil: "depth_after d [] = d"
  by (simp add: depth_after_def)

lemma depth_after_Cons: "depth_after d (x # xs) = depth_after (depth_step d x) xs"
  by (simp add: depth_after_def)

lemma in_root_loop_depth:
  "0 \<le> l \<Longrightarrow>
   in_root_loop xs l = (\<not> (\<exists>n. n \<le> length xs \<and> depth_after l (take n xs) < 0))"
proof (induction xs arbitrary: l)
  case Nil
  then show ?case by (simp add: depth_after_Nil)
next
  case (Cons x xs)
  let ?l' = "depth_step l x"
  show ?case
  proof (cases "?l' < 0")
    case True
    have "Suc 0 \<le> length (x # xs) \<and> depth_after l (take (Suc 0) (x # xs)) < 0"
      using True by (simp add: depth_after_Cons depth_after_Nil)
    then have "\<exists>n. n \<le> length (x # xs) \<and> depth_after l (take n (x # xs)) < 0"
      by blast
    moreover have "in_root_loop (x # xs) l = False"
      using True by (simp add: depth_step_def Let_def)
    ultimately show ?thesis by simp
  next
    case False
    then have nonneg: "0 \<le> ?l'" by simp
    have step: "in_root_loop (x # xs) l = in_root_loop xs ?l'"
      using False by (simp add: depth_step_def Let_def)
    have "(\<exists>n. n \<le> length (x # xs) \<and> depth_after l (take n (x # xs)) < 0)
          = (\<exists>n. n \<le> length xs \<and> depth_after ?l' (take n xs) < 0)"
    proof
      assume "\<exists>n. n \<le> length (x # xs) \<and> depth_after l (take n (x # xs)) < 0"
      then obtain n where n: "n \<le> length (x # xs)" "depth_after l (take n (x # xs)) < 0"
        by blast
      have "n \<noteq> 0"
      proof
        assume "n = 0"
        with n(2) have "l < 0" by (simp add: depth_after_Nil)
        with Cons.prems show False by simp
      qed
      then obtain m where m: "n = Suc m" by (cases n) auto
      with n have "m \<le> length xs \<and> depth_after ?l' (take m xs) < 0"
        by (simp add: depth_after_Cons)
      then show "\<exists>n. n \<le> length xs \<and> depth_after ?l' (take n xs) < 0" by blast
    next
      assume "\<exists>n. n \<le> length xs \<and> depth_after ?l' (take n xs) < 0"
      then obtain m where "m \<le> length xs" "depth_after ?l' (take m xs) < 0" by blast
      then have "Suc m \<le> length (x # xs) \<and> depth_after l (take (Suc m) (x # xs)) < 0"
        by (simp add: depth_after_Cons)
      then show "\<exists>n. n \<le> length (x # xs) \<and> depth_after l (take n (x # xs)) < 0" by blast
    qed
    with step Cons.IH [OF nonneg] show ?thesis by simp
  qed
qed

text \<open>
  Claim C9. \<open>is_in_root p\<close> is false exactly when the depth counter, started at 0 and
  run over the slash-separated segments of \<open>p\<close> from left to right, is negative after
  some prefix of the segments. In particular \<open>a/../../b\<close> is rejected, and
  \<open>a/b/../c\<close> and \<open>./a\<close> (whose \<open>as_posix()\<close> is \<open>a\<close>) are accepted.
\<close>

theorem is_in_root_depth_counter:
  "(is_in_root p = False
      \<longleftrightarrow> (\<exists>n. n \<le> length (split_slash p) \<and> depth_after 0 (take n (split_slash p)) < 0))
   \<and> is_in_root ''a/../../b'' = False
   \<and> is_in_root ''a/b/../c'' = True
   \<and> is_in_root ''./a'' = True
   \<and> is_in_root ''a'' = True"
proof -
  have "is_in_root p = False
      \<longleftrightarrow> (\<exists>n. n \<le> length (split_slash p) \<and> depth_after 0 (take n (split_slash p)) < 0)"
    unfolding is_in_root_def using in_root_loop_depth [of 0 "split_slash p"] by simp
  moreover have "is_in_root ''a/../../b'' = False" by (simp add: is_in_root_def)
  moreover have "is_in_root ''a/b/../c'' = True" by (simp add: is_in_root_def)
  moreover have "is_in_root ''./a'' = True" by (simp add: is_in_root_def)
  moreover have "is_in_root ''a'' = True" by (simp add: is_in_root_def)
  ultimately show ?thesis by blast
qed

section \<open>Properties of the index\<close>

lemma list_all_map_of:
  assumes "distinct (map fst xs)"
  shows "list_all (\<lambda>(k, v). P k v) xs = (\<forall>k v. map_of xs k = Some v \<longrightarrow> P k v)"
proof -
  have "\<And>k v. (k, v) \<in> set xs \<longleftrightarrow> map_of xs k = Some v"
    using assms by simp
  then show ?thesis
    by (simp add: list_all_iff split_beta) (metis prod.collapse fst_conv snd_conv)
qed

lemma bidict_inv_mirrored:
  "bidict_inv d \<longleftrightarrow>
     distinct (map fst (forward d)) \<and> distinct (map fst (inverse_map d))
     \<and> mirrored (map_of (forward d)) (map_of (inverse_map d))"
proof (cases "distinct (map fst (forward d)) \<and> distinct (map fst (inverse_map d))")
  case True
  then show ?thesis
    unfolding bidict_inv_def mirrored_def
    by (simp add: list_all_map_of) blast
next
  case False
  then show ?thesis unfolding bidict_inv_def by blast
qed

lemma mirrored_store:
  "mirrored f g \<Longrightarrow> f k = None \<Longrightarrow> g v = None \<Longrightarrow> mirrored (f(k \<mapsto> v)) (g(v \<mapsto> k))"
  unfolding mirrored_def by (simp add: fun_upd_def) (metis option.distinct(1))

lemma mirrored_delete:
  "mirrored f g \<Longrightarrow> f k = Some v \<Longrightarrow> mirrored (f(k := None)) (g(v := None))"
  unfolding mirrored_def by (simp add: fun_upd_def) (metis option.inject)

lemma mirrored_inj: "mirrored f g \<Longrightarrow> f k = Some v \<Longrightarrow> f k' = Some v \<Longrightarrow> k = k'"
  unfolding mirrored_def by (metis option.inject)

lemma bidict_store_inv:
  assumes "bidict_inv d" "map_of (forward d) k = None" "map_of (inverse_map d) v = None"
  shows "bidict_inv (bidict_store k v d)"
  using assms
  by (simp add: bidict_inv_mirrored bidict_store_def distinct_update update_conv' mirrored_store)

lemma bidict_delitem_inv:
  assumes "bidict_inv d" "bidict_delitem k d = Inr d'"
  shows "bidict_inv d'"
proof -
  from assms(2) obtain v where v: "map_of (forward d) k = Some v"
    and d': "d' = d\<lparr>inverse_map := AList.delete v (inverse_map d), forward := AList.delete k (forward d)\<rparr>"
    by (auto simp: bidict_delitem_def split: option.splits if_splits)
  show ?thesis
    using assms(1) v unfolding d'
    by (simp add: bidict_inv_mirrored distinct_delete delete_conv' mirrored_delete)
qed

lemma bidict_delitem_ok:
  assumes "bidict_inv d" "map_of (forward d) k = Some v"
  shows "bidict_delitem k d =
     Inr (d\<lparr>inverse_map := AList.delete v (inverse_map d), forward := AList.delete k (forward d)\<rparr>)"
proof -
  from assms have "map_of (inverse_map d) v = Some k"
    by (simp add: bidict_inv_mirrored mirrored_def)
  with assms(2) show ?thesis by (simp add: bidict_delitem_def contains_def)
qed

lemma bidict_setitem_new:
  "map_of (forward d) k = None \<Longrightarrow> bidict_setitem k v d = Inr (bidict_store k v d)"
  by (simp add: bidict_setitem_def)

section \<open>Index insertion\<close>

text \<open>
  Claim C1, at the input where the code departs from it. A resource with the relative
  path \<open>x.dat\<close> is restored for group 1 and then for group 2. Both calls return;
  \<open>BiDict.__setitem__\<close> checks the inverse map only when the key is already present,
  so the resource ends up under two keys while the inverse map knows the second only,
  and the index invariant, which held after the first call, no longer holds. The same
  on a bare \<open>BiDict\<close>: storing under key 2 a value that key 1 holds is accepted,
  while \<open>BiDict.__init__\<close> refuses the dict that results.
\<close>

theorem restore_io_twice_breaks_index:
  "fst (restore_io restored_state (Some 1) 0) = Inr ()
   \<and> bidict_inv (ios (snd (restore_io restored_state (Some 1) 0)))
   \<and> fst (restore_io (snd (restore_io restored_state (Some 1) 0)) (Some 2) 0) = Inr ()
   \<and> forward (ios (snd (restore_io (snd (restore_io restored_state (Some 1) 0)) (Some 2) 0)))
       = [((Some 1, ''x.dat''), 0), ((Some 2, ''x.dat''), 0)]
   \<and> inverse_map (ios (snd (restore_io (snd (restore_io restored_state (Some 1) 0)) (Some 2) 0)))
       = [(0, (Some 2, ''x.dat''))]
   \<and> \<not> bidict_inv (ios (snd (restore_io (snd (restore_io restored_state (Some 1) 0)) (Some 2) 0)))
   \<and> bidict_setitem (2 :: nat) (7 :: nat) \<lparr>forward = [(1, 7)], inverse_map = [(7, 1)]\<rparr>
       = Inr \<lparr>forward = [(1, 7), (2, 7)], inverse_map = [(7, 2)]\<rparr>
   \<and> bidict_init [(1 :: nat, 7 :: nat), (2, 7)] = Inl (ValueError ''not injective mapping'')"
proof -
  let ?s1 = "snd (restore_io restored_state (Some 1) 0)"
  let ?s2 = "snd (restore_io ?s1 (Some 2) 0)"
  have one: "restore_io restored_state (Some 1) 0
      = (Inr (), restored_state\<lparr>ios := \<lparr>forward = [((Some 1, ''x.dat''), 0)],
                                         inverse_map = [(0, (Some 1, ''x.dat''))]\<rparr>\<rparr>)"
    by (simp add: restore_io_def restored_state_def init_manager_def get_io_def get_io_key_def
        set_ios_def bidict_setitem_def bidict_store_def)
  have two: "restore_io ?s1 (Some 2) 0
      = (Inr (), restored_state\<lparr>ios :=
           \<lparr>forward = [((Some 1, ''x.dat''), 0), ((Some 2, ''x.dat''), 0)],
            inverse_map = [(0, (Some 2, ''x.dat''))]\<rparr>\<rparr>)"
    unfolding one
    by (simp add: restore_io_def restored_state_def init_manager_def get_io_def get_io_key_def
        set_ios_def bidict_setitem_def bidict_store_def)
  have bare: "bidict_setitem (2 :: nat) (7 :: nat) \<lparr>forward = [(1, 7)], inverse_map = [(7, 1)]\<rparr>
      = Inr \<lparr>forward = [(1, 7), (2, 7)], inverse_map = [(7, 2)]\<rparr>"
    by (simp add: bidict_setitem_def bidict_store_def)
  have init: "bidict_init [(1 :: nat, 7 :: nat), (2, 7)] = Inl (ValueError ''not injective mapping'')"
    by (simp add: bidict_init_def contains_def)
  show ?thesis
    unfolding two unfolding one using bare init by (simp add: bidict_inv_def)
qed

section \<open>Serialisation hooks\<close>

lemma getstate_unset_raises:
  "serializing s = None \<Longrightarrow> \<exists>e. fst (getstate h s spec) = Inl e"
  by (simp add: getstate_def Let_def split: option.splits)

text \<open>
  Claim C5, at the input where the code departs from it. With the mode unset
  \<open>__getstate__\<close> raises (lemma above), but \<open>__setstate__\<close> returns normally for
  any state dictionary that has its keys: the source builds the \<open>RuntimeError\<close> of
  its last branch and does not raise it.
\<close>

theorem setstate_unset_mode_returns:
  "fst (setstate h (s\<lparr>serializing := None\<rparr>) spec
          \<lparr>st_manager = Some (Some ()), st_io = Some r, st_data = d, st_is_hidden = b\<rparr>) = Inr ()"
  by (simp add: setstate_def setstate_dispatch_def Let_def set_spec_manager_def set_spec_io_def
      set_spec_is_hidden_def)

section \<open>Updating the value of a spec\<close>

lemma update_spec_value_rejected:
  "can_update_value h spec v kwargs = Inr False \<Longrightarrow>
   update_spec_value h s spec v kwargs
     = (Inl (ValueError ''does not allow to replace its value''), s)"
  by (simp add: update_spec_value_def)

lemma update_spec_value_rejects_iff:
  "fst (update_spec_value h s spec v kwargs)
     = Inl (ValueError ''does not allow to replace its value'')
   \<longleftrightarrow> can_update_value h spec v kwargs = Inr False"
  by (auto simp: update_spec_value_def split: sum.splits option.splits)

lemma update_spec_value_accepted:
  assumes "can_update_value h spec v kwargs = Inr True"
    and "spec_io (spec_heap s spec) = Some a_io"
  shows "snd (update_spec_value h s spec v kwargs)
     = s\<lparr>trace := trace s @ IOUpdateValue a_io v kwargs #
                     (if io_on_update_value h a_io v kwargs = None
                      then [SpecUpdateValue spec v kwargs] else [])\<rparr>"
  using assms by (simp add: update_spec_value_def log_def split: option.splits)

lemma update_spec_value_result:
  assumes "can_update_value h spec v kwargs = Inr True"
    and "spec_io (spec_heap s spec) = Some a_io"
  shows "fst (update_spec_value h s spec v kwargs)
     = (case io_on_update_value h a_io v kwargs of
          Some e \<Rightarrow> Inl (HookRaised e)
        | None \<Rightarrow> (case spec_on_update_value h spec v kwargs of
                     Some e \<Rightarrow> Inl (HookRaised e)
                   | None \<Rightarrow> Inr ()))"
  using assms by (simp add: update_spec_value_def split: option.splits)

text \<open>
  Claim C8. \<open>update_spec_value\<close> ends in its own rejection (the \<open>ValueError\<close> of its
  \<open>else\<close> branch) exactly when the predicate returned false; then the state, and with
  it the record of hook calls, is what it was. When the predicate returned true, the
  hook of the resource is called first and the hook of the spec after it, and only if
  the hook of the resource returned; nothing else changes, and the call ends as the
  hooks do.
\<close>

theorem update_spec_value_contract:
  "(fst (update_spec_value h s spec v kwargs)
      = Inl (ValueError ''does not allow to replace its value'')
    \<longleftrightarrow> can_update_value h spec v kwargs = Inr False)
   \<and> (can_update_value h spec v kwargs = Inr False \<longrightarrow>
        snd (update_spec_value h s spec v kwargs) = s)
   \<and> (can_update_value h spec v kwargs = Inr True \<and> spec_io (spec_heap s spec) = Some a_io \<longrightarrow>
        snd (update_spec_value h s spec v kwargs)
          = s\<lparr>trace := trace s @ IOUpdateValue a_io v kwargs #
                          (if io_on_update_value h a_io v kwargs = None
                           then [SpecUpdateValue spec v kwargs] else [])\<rparr>
        \<and> fst (update_spec_value h s spec v kwargs)
          = (case io_on_update_value h a_io v kwargs of
               Some e \<Rightarrow> Inl (HookRaised e)
             | None \<Rightarrow> (case spec_on_update_value h spec v kwargs of
                          Some e \<Rightarrow> Inl (HookRaised e)
                        | None \<Rightarrow> Inr ())))"
  using update_spec_value_rejects_iff [of h s spec v kwargs]
    update_spec_value_rejected [of h spec v kwargs s]
    update_spec_value_accepted [of h spec v kwargs s a_io]
    update_spec_value_result [of h spec v kwargs s a_io]
  by simp

lemmas manager_defs =
  new_spec_def alloc_spec_def set_spec_manager_def set_spec_io_def get_or_create_io_def
  get_io_def get_io_key_def new_io_def alloc_io_def set_ios_def bidict_setitem_def
  bidict_store_def bidict_delitem_def contains_def new_spec_try_def add_spec_def
  set_io_specs_def log_def new_io_obj_def new_spec_obj_def init_manager_def

lemma one_spec_state_eq:
  "one_spec_state =
     \<lparr>ios = \<lparr>forward = [((Some 1, ''x.dat''), 0)], inverse_map = [(0, (Some 1, ''x.dat''))]\<rparr>,
      serializing = None,
      io_heap = (\<lambda>_. new_io_obj [] None)
                  (0 := \<lparr>io_path = ''x.dat'', io_specs = [0], io_load_from = None\<rparr>),
      spec_heap = (\<lambda>_. new_spec_obj)
                  (0 := \<lparr>spec_manager = Some (), spec_io = Some 0, spec_is_hidden = None\<rparr>),
      next_io = 1, next_spec = 1, trace = [LoadValue 0]\<rparr>"
  by (simp add: one_spec_state_def manager_defs plain_hooks_def)

theorem update_spec_value_contract_witness:
  "can_update_value frozen_hooks 0 5 6 = Inr False
   \<and> update_spec_value frozen_hooks one_spec_state 0 5 6
       = (Inl (ValueError ''does not allow to replace its value''), one_spec_state)
   \<and> can_update_value plain_hooks 0 5 6 = Inr True
   \<and> spec_io (spec_heap one_spec_state 0) = Some 0
   \<and> fst (update_spec_value plain_hooks one_spec_state 0 5 6) = Inr ()
   \<and> trace (snd (update_spec_value plain_hooks one_spec_state 0 5 6))
       = [LoadValue 0, IOUpdateValue 0 5 6, SpecUpdateValue 0 5 6]"
proof -
  have f: "can_update_value frozen_hooks 0 5 6 = Inr False"
    by (simp add: frozen_hooks_def plain_hooks_def)
  have p: "can_update_value plain_hooks 0 5 6 = Inr True"
    "io_on_update_value plain_hooks 0 5 6 = None"
    "spec_on_update_value plain_hooks 0 5 6 = None"
    by (simp_all add: plain_hooks_def)
  have b: "spec_io (spec_heap one_spec_state 0) = Some 0"
    "trace one_spec_state = [LoadValue 0]"
    by (simp_all add: one_spec_state_eq)
  show ?thesis
    using update_spec_value_contract [of frozen_hooks one_spec_state 0 5 6 0]
      update_spec_value_contract [of plain_hooks one_spec_state 0 5 6 0] f p b
    by (simp add: prod_eq_iff)
qed

section \<open>Legacy state dictionaries\<close>

lemma add_spec_spec_heap: "spec_heap (snd (add_spec h s a_io spec)) = spec_heap s"
  by (simp add: add_spec_def set_io_specs_def split: sum.splits)

lemma setstate_dispatch_spec_heap:
  "spec_heap (snd (setstate_dispatch h s spec st)) = spec_heap s"
  by (simp add: setstate_dispatch_def log_def add_spec_spec_heap split: option.splits bool.splits)

lemma setstate_spec_obj:
  assumes "st_manager st = Some m"
    and "(case st_io st of Some r \<Rightarrow> Some r | None \<Rightarrow> st_data st) = Some r"
  shows "spec_heap (snd (setstate h s spec st)) spec
     = \<lparr>spec_manager = m, spec_io = r,
        spec_is_hidden = (case st_is_hidden st of Some b \<Rightarrow> Some b | None \<Rightarrow> Some False)\<rparr>"
  using assms
  by (simp add: setstate_def Let_def setstate_dispatch_spec_heap set_spec_manager_def
      set_spec_io_def set_spec_is_hidden_def)

text \<open>
  Claim C10. For a state dictionary that has the key \<open>manager\<close>, lacks \<open>_io\<close> and
  has the historical key \<open>_data\<close>, \<open>__setstate__\<close> binds the spec to the resource
  stored under \<open>_data\<close>; and when the dictionary (with \<open>manager\<close> and one of the two
  resource keys) lacks \<open>is_hidden\<close>, the hidden flag of the spec is \<open>False\<close>. Both
  hold however the call ends.
\<close>

theorem setstate_legacy_fields:
  "(st_manager st = Some m \<and> st_io st = None \<and> st_data st = Some r \<longrightarrow>
      spec_io (spec_heap (snd (setstate h s spec st)) spec) = r)
   \<and> (st_manager st = Some m \<and> (st_io st = Some r \<or> st_io st = None \<and> st_data st = Some r)
        \<and> st_is_hidden st = None \<longrightarrow>
      spec_is_hidden (spec_heap (snd (setstate h s spec st)) spec) = Some False)"
proof (intro conjI impI)
  assume "st_manager st = Some m \<and> st_io st = None \<and> st_data st = Some r"
  then show "spec_io (spec_heap (snd (setstate h s spec st)) spec) = r"
    using setstate_spec_obj [of st m r h s spec] by simp
next
  assume a: "st_manager st = Some m \<and> (st_io st = Some r \<or> st_io st = None \<and> st_data st = Some r)
        \<and> st_is_hidden st = None"
  then have "(case st_io st of Some r \<Rightarrow> Some r | None \<Rightarrow> st_data st) = Some r" by auto
  with a show "spec_is_hidden (spec_heap (snd (setstate h s spec st)) spec) = Some False"
    using setstate_spec_obj [of st m r h s spec] by simp
qed

theorem setstate_legacy_fields_witness:
  "st_manager \<lparr>st_manager = Some (Some ()), st_io = None, st_data = Some (Some 0),
                st_is_hidden = None\<rparr> = Some (Some ())
   \<and> st_io \<lparr>st_manager = Some (Some ()), st_io = None, st_data = Some (Some 0),
             st_is_hidden = None\<rparr> = None
   \<and> spec_io (spec_heap (snd (setstate plain_hooks (one_spec_state\<lparr>serializing := Some False\<rparr>) 1
        \<lparr>st_manager = Some (Some ()), st_io = None, st_data = Some (Some 0),
          st_is_hidden = None\<rparr>)) 1) = Some 0
   \<and> spec_is_hidden (spec_heap (snd (setstate plain_hooks (one_spec_state\<lparr>serializing := Some False\<rparr>) 1
        \<lparr>st_manager = Some (Some ()), st_io = None, st_data = Some (Some 0),
          st_is_hidden = None\<rparr>)) 1) = Some False"
  using setstate_legacy_fields [of "\<lparr>st_manager = Some (Some ()), st_io = None,
      st_data = Some (Some 0), st_is_hidden = None\<rparr>" "Some ()" "Some 0" plain_hooks
      "one_spec_state\<lparr>serializing := Some False\<rparr>" 1]
  by simp

section \<open>Renaming a resource\<close>

lemma bidict_inv_forward_of_inverse:
  "bidict_inv d \<Longrightarrow> map_of (inverse_map d) v = Some k \<Longrightarrow> map_of (forward d) k = Some v"
  by (simp add: bidict_inv_mirrored mirrored_def)

lemma bidict_inv_inverse_of_forward:
  "bidict_inv d \<Longrightarrow> map_of (forward d) k = Some v \<Longrightarrow> map_of (inverse_map d) v = Some k"
  by (simp add: bidict_inv_mirrored mirrored_def)

lemma get_io_key_path: "snd (get_io_key g p) = p"
  by (simp add: get_io_key_def)

lemma get_io_key_neq: "p \<noteq> p' \<Longrightarrow> get_io_key g p \<noteq> (g', p')"
  using get_io_key_path [of g p] by auto

lemma io_on_update_path_ios: "ios (io_on_update_path a_io p s) = ios s"
  by (simp add: io_on_update_path_def log_def)

lemma update_path_same:
  "map_of (inverse_map (ios s)) a_io = Some (g, p) \<Longrightarrow> update_path s a_io p = (Inr (), s)"
  by (simp add: update_path_def)

lemma update_path_occupied:
  assumes "map_of (inverse_map (ios s)) a_io = Some (g, path_old)" "p \<noteq> path_old"
    and "map_of (forward (ios s)) (get_io_key g p) = Some r"
  shows "update_path s a_io p = (Inl (ValueError ''cannot change path''), s)"
  using assms by (simp add: update_path_def contains_def)

lemma update_path_moves:
  assumes inv: "bidict_inv (ios s)"
    and reg: "map_of (inverse_map (ios s)) a_io = Some (g, path_old)"
    and neq: "p \<noteq> path_old"
    and free: "map_of (forward (ios s)) (get_io_key g p) = None"
  shows "\<exists>d1 d2.
      bidict_delitem (g, path_old) (ios s) = Inr d1
      \<and> bidict_setitem (get_io_key g p) a_io d1 = Inr d2
      \<and> update_path s a_io p = (Inr (), (io_on_update_path a_io p (s\<lparr>ios := d1\<rparr>))\<lparr>ios := d2\<rparr>)
      \<and> bidict_inv d2
      \<and> map_of (forward d2) (g, path_old) = None
      \<and> map_of (forward d2) (get_io_key g p) = Some a_io
      \<and> map_of (inverse_map d2) a_io = Some (get_io_key g p)"
proof -
  let ?k = "get_io_key g p"
  let ?d1 = "(ios s)\<lparr>inverse_map := AList.delete a_io (inverse_map (ios s)),
                      forward := AList.delete (g, path_old) (forward (ios s))\<rparr>"
  let ?d2 = "bidict_store ?k a_io ?d1"
  have fwd: "map_of (forward (ios s)) (g, path_old) = Some a_io"
    using inv reg by (rule bidict_inv_forward_of_inverse)
  have del: "bidict_delitem (g, path_old) (ios s) = Inr ?d1"
    using inv fwd by (rule bidict_delitem_ok)
  have inv1: "bidict_inv ?d1" using inv del by (rule bidict_delitem_inv)
  have kneq: "?k \<noteq> (g, path_old)" using neq by (rule get_io_key_neq)
  have free1: "map_of (forward ?d1) ?k = None"
    using free by (simp add: delete_conv')
  have gone: "map_of (inverse_map ?d1) a_io = None"
    by (simp add: delete_conv')
  have set: "bidict_setitem ?k a_io ?d1 = Inr ?d2"
    using free1 by (rule bidict_setitem_new)
  have inv2: "bidict_inv ?d2" using inv1 free1 gone by (rule bidict_store_inv)
  have res: "update_path s a_io p = (Inr (), (io_on_update_path a_io p (s\<lparr>ios := ?d1\<rparr>))\<lparr>ios := ?d2\<rparr>)"
    using reg neq free del set
    by (simp add: update_path_def contains_def Let_def io_on_update_path_ios set_ios_def)
  have old: "map_of (forward ?d2) (g, path_old) = None"
    using kneq by (simp add: bidict_store_def update_conv' delete_conv')
  have new: "map_of (forward ?d2) ?k = Some a_io"
    by (simp add: bidict_store_def update_conv')
  have inv_new: "map_of (inverse_map ?d2) a_io = Some ?k"
    by (simp add: bidict_store_def update_conv')
  from del set res inv2 old new inv_new show ?thesis by blast
qed

lemma update_path_not_self:
  assumes "bidict_inv (ios s)" "map_of (inverse_map (ios s)) a_io = Some (g, path_old)"
    "p \<noteq> path_old"
  shows "map_of (forward (ios s)) (get_io_key g p) \<noteq> Some a_io"
proof
  assume "map_of (forward (ios s)) (get_io_key g p) = Some a_io"
  with assms(1) have "map_of (inverse_map (ios s)) a_io = Some (get_io_key g p)"
    by (rule bidict_inv_inverse_of_forward)
  with assms(2) have "get_io_key g p = (g, path_old)" by simp
  with get_io_key_neq [OF assms(3)] show False by blast
qed

text \<open>
  The three cases of \<open>update_path\<close> for a resource registered, under the key
  \<open>(g, path_old)\<close>, in a mirrored index. If the new path is the registered one, the
  call returns and changes nothing. If the target key holds another resource, it raises
  the \<open>ValueError\<close> of a duplicate and changes nothing. Otherwise it returns, the old
  key is free, the new key holds the resource, and the resource has the new path.
\<close>

lemma update_path_cases_mirrored:
  assumes "bidict_inv (ios s)"
    and "map_of (inverse_map (ios s)) a_io = Some (g, path_old)"
  shows "(p = path_old \<longrightarrow> update_path s a_io p = (Inr (), s))
   \<and> (p \<noteq> path_old \<and> (\<exists>r. r \<noteq> a_io \<and> map_of (forward (ios s)) (get_io_key g p) = Some r) \<longrightarrow>
        update_path s a_io p = (Inl (ValueError ''cannot change path''), s))
   \<and> (p \<noteq> path_old \<and> \<not> (\<exists>r. r \<noteq> a_io \<and> map_of (forward (ios s)) (get_io_key g p) = Some r) \<longrightarrow>
        (\<exists>d1 d2.
           bidict_delitem (g, path_old) (ios s) = Inr d1
           \<and> bidict_setitem (get_io_key g p) a_io d1 = Inr d2
           \<and> update_path s a_io p
               = (Inr (), (io_on_update_path a_io p (s\<lparr>ios := d1\<rparr>))\<lparr>ios := d2\<rparr>)
           \<and> map_of (forward d2) (g, path_old) = None
           \<and> map_of (forward d2) (get_io_key g p) = Some a_io
           \<and> map_of (inverse_map d2) a_io = Some (get_io_key g p))
        \<and> io_path (io_heap (snd (update_path s a_io p)) a_io) = p)"
proof (intro conjI impI)
  assume "p = path_old"
  with assms(2) show "update_path s a_io p = (Inr (), s)" by (simp add: update_path_same)
next
  assume "p \<noteq> path_old \<and> (\<exists>r. r \<noteq> a_io \<and> map_of (forward (ios s)) (get_io_key g p) = Some r)"
  then show "update_path s a_io p = (Inl (ValueError ''cannot change path''), s)"
    using update_path_occupied [OF assms(2)] by blast
next
  assume a: "p \<noteq> path_old \<and> \<not> (\<exists>r. r \<noteq> a_io \<and> map_of (forward (ios s)) (get_io_key g p) = Some r)"
  then have "map_of (forward (ios s)) (get_io_key g p) = None"
    using update_path_not_self [OF assms, of p] by (cases "map_of (forward (ios s)) (get_io_key g p)") auto
  with a show "\<exists>d1 d2.
           bidict_delitem (g, path_old) (ios s) = Inr d1
           \<and> bidict_setitem (get_io_key g p) a_io d1 = Inr d2
           \<and> update_path s a_io p
               = (Inr (), (io_on_update_path a_io p (s\<lparr>ios := d1\<rparr>))\<lparr>ios := d2\<rparr>)
           \<and> map_of (forward d2) (g, path_old) = None
           \<and> map_of (forward d2) (get_io_key g p) = Some a_io
           \<and> map_of (inverse_map d2) a_io = Some (get_io_key g p)"
    using update_path_moves [OF assms, of p] by blast
next
  assume a: "p \<noteq> path_old \<and> \<not> (\<exists>r. r \<noteq> a_io \<and> map_of (forward (ios s)) (get_io_key g p) = Some r)"
  then have "map_of (forward (ios s)) (get_io_key g p) = None"
    using update_path_not_self [OF assms, of p] by (cases "map_of (forward (ios s)) (get_io_key g p)") auto
  with a obtain d1 d2 where
    "update_path s a_io p = (Inr (), (io_on_update_path a_io p (s\<lparr>ios := d1\<rparr>))\<lparr>ios := d2\<rparr>)"
    using update_path_moves [OF assms, of p] by blast
  then show "io_path (io_heap (snd (update_path s a_io p)) a_io) = p"
    by (simp add: io_on_update_path_def log_def)
qed

lemma two_spec_state_eq:
  "two_spec_state =
     \<lparr>ios = \<lparr>forward = [((Some 1, ''x.dat''), 0), ((Some 1, ''y.dat''), 1)],
              inverse_map = [(0, (Some 1, ''x.dat'')), (1, (Some 1, ''y.dat''))]\<rparr>,
      serializing = None,
      io_heap = (\<lambda>_. new_io_obj [] None)
                  (0 := \<lparr>io_path = ''x.dat'', io_specs = [0], io_load_from = None\<rparr>,
                   1 := \<lparr>io_path = ''y.dat'', io_specs = [1], io_load_from = None\<rparr>),
      spec_heap = (\<lambda>_. new_spec_obj)
                  (0 := \<lparr>spec_manager = Some (), spec_io = Some 0, spec_is_hidden = None\<rparr>,
                   1 := \<lparr>spec_manager = Some (), spec_io = Some 1, spec_is_hidden = None\<rparr>),
      next_io = 2, next_spec = 2, trace = [LoadValue 0, LoadValue 1]\<rparr>"
  by (simp add: two_spec_state_def one_spec_state_eq manager_defs plain_hooks_def)

lemma two_spec_state_index:
  "ios two_spec_state =
     \<lparr>forward = [((Some 1, ''x.dat''), 0), ((Some 1, ''y.dat''), 1)],
      inverse_map = [(0, (Some 1, ''x.dat'')), (1, (Some 1, ''y.dat''))]\<rparr>"
  by (simp add: two_spec_state_eq)

lemma update_path_cases_example:
  "bidict_inv (ios two_spec_state)
   \<and> map_of (inverse_map (ios two_spec_state)) 0 = Some (Some 1, ''x.dat'')
   \<and> update_path two_spec_state 0 ''x.dat'' = (Inr (), two_spec_state)
   \<and> map_of (forward (ios two_spec_state)) (get_io_key (Some 1) ''y.dat'') = Some 1
   \<and> update_path two_spec_state 0 ''y.dat'' = (Inl (ValueError ''cannot change path''), two_spec_state)
   \<and> map_of (forward (ios two_spec_state)) (get_io_key (Some 1) ''z.dat'') = None
   \<and> fst (update_path two_spec_state 0 ''z.dat'') = Inr ()
   \<and> io_path (io_heap (snd (update_path two_spec_state 0 ''z.dat'')) 0) = ''z.dat''"
proof -
  have inv: "bidict_inv (ios two_spec_state)"
    by (simp add: two_spec_state_index bidict_inv_def)
  have reg: "map_of (inverse_map (ios two_spec_state)) 0 = Some (Some 1, ''x.dat'')"
    by (simp add: two_spec_state_index)
  have y: "map_of (forward (ios two_spec_state)) (get_io_key (Some 1) ''y.dat'') = Some 1"
    by (simp add: two_spec_state_index get_io_key_def)
  have z: "map_of (forward (ios two_spec_state)) (get_io_key (Some 1) ''z.dat'') = None"
    by (simp add: two_spec_state_index get_io_key_def)
  have "update_path two_spec_state 0 ''x.dat'' = (Inr (), two_spec_state)"
    using update_path_cases_mirrored [OF inv reg, of "''x.dat''"] by simp
  moreover have "update_path two_spec_state 0 ''y.dat''
      = (Inl (ValueError ''cannot change path''), two_spec_state)"
    using update_path_cases_mirrored [OF inv reg, of "''y.dat''"] y by simp
  moreover have "fst (update_path two_spec_state 0 ''z.dat'') = Inr ()
      \<and> io_path (io_heap (snd (update_path two_spec_state 0 ''z.dat'')) 0) = ''z.dat''"
    using update_path_cases_mirrored [OF inv reg, of "''z.dat''"] z by auto
  ultimately show ?thesis using inv reg y z by simp
qed

section \<open>Removing a spec\<close>

lemma find_value_None:
  "List.find (\<lambda>(k, v). v = a) xs = None \<longleftrightarrow> a \<notin> snd ` set xs"
  by (induction xs) auto

lemma find_value_Some:
  "List.find (\<lambda>(k, v). v = a) xs = Some kv \<Longrightarrow> kv \<in> set xs \<and> snd kv = a"
  by (induction xs) (auto split: if_splits)

lemma bidict_inv_delete_value_gone:
  assumes inv: "bidict_inv d" and k: "map_of (forward d) k = Some v"
  shows "v \<notin> snd ` set (AList.delete k (forward d))"
proof
  assume "v \<in> snd ` set (AList.delete k (forward d))"
  then obtain k' where mem: "(k', v) \<in> set (AList.delete k (forward d))" by auto
  have dist: "distinct (map fst (AList.delete k (forward d)))"
    using inv by (simp add: bidict_inv_mirrored distinct_delete)
  from mem dist have "map_of (AList.delete k (forward d)) k' = Some v" by simp
  then have k': "k' \<noteq> k \<and> map_of (forward d) k' = Some v"
    by (simp add: delete_conv' split: if_splits)
  from inv have "mirrored (map_of (forward d)) (map_of (inverse_map d))"
    by (simp add: bidict_inv_mirrored)
  from mirrored_inj [OF this k] k' show False by blast
qed

lemma del_io_unregisters:
  assumes inv: "bidict_inv (ios s)" and empty: "io_specs (io_heap s a_io) = []"
  shows "fst (del_io s a_io) = Inr ()
    \<and> a_io \<notin> snd ` set (forward (ios (snd (del_io s a_io))))
    \<and> map_of (inverse_map (ios (snd (del_io s a_io)))) a_io = None
    \<and> bidict_inv (ios (snd (del_io s a_io)))
    \<and> set (forward (ios (snd (del_io s a_io)))) \<subseteq> set (forward (ios s))
    \<and> io_heap (snd (del_io s a_io)) = io_heap s
    \<and> next_io (snd (del_io s a_io)) = next_io s"
proof (cases "List.find (\<lambda>(k, v). v = a_io) (forward (ios s))")
  case None
  then have notin: "a_io \<notin> snd ` set (forward (ios s))" by (simp add: find_value_None)
  have "map_of (inverse_map (ios s)) a_io = None"
  proof (cases "map_of (inverse_map (ios s)) a_io")
    case (Some k)
    with inv have "map_of (forward (ios s)) k = Some a_io"
      by (rule bidict_inv_forward_of_inverse)
    then have "(k, a_io) \<in> set (forward (ios s))" by (rule map_of_SomeD)
    with notin show ?thesis by force
  qed simp
  with None notin inv empty show ?thesis by (simp add: del_io_def)
next
  case (Some kv)
  obtain k v where kv: "kv = (k, v)" by (cases kv)
  from find_value_Some [OF Some] kv have mem: "(k, a_io) \<in> set (forward (ios s))" by auto
  from inv have "distinct (map fst (forward (ios s)))" by (simp add: bidict_inv_mirrored)
  with mem have fwd: "map_of (forward (ios s)) k = Some a_io" by simp
  let ?d = "(ios s)\<lparr>inverse_map := AList.delete a_io (inverse_map (ios s)),
                     forward := AList.delete k (forward (ios s))\<rparr>"
  have del: "bidict_delitem k (ios s) = Inr ?d" using inv fwd by (rule bidict_delitem_ok)
  have res: "del_io s a_io = (Inr (), s\<lparr>ios := ?d\<rparr>)"
    using empty Some kv del by (simp add: del_io_def set_ios_def)
  have "a_io \<notin> snd ` set (forward ?d)"
    using bidict_inv_delete_value_gone [OF inv fwd] by simp
  moreover have "map_of (inverse_map ?d) a_io = None" by (simp add: delete_conv')
  moreover have "bidict_inv ?d" using inv del by (rule bidict_delitem_inv)
  moreover have "set (forward ?d) \<subseteq> set (forward (ios s))" by (auto simp: AList.delete_eq)
  ultimately show ?thesis using res by simp
qed

lemma del_spec_bound:
  assumes "spec_io (spec_heap s spec) = Some a_io" "spec \<in> set (io_specs (io_heap s a_io))"
  shows "del_spec s spec =
    (let s1 = set_io_specs a_io (removeAll spec (io_specs (io_heap s a_io))) s
     in if removeAll spec (io_specs (io_heap s a_io)) = [] then del_io s1 a_io else (Inr (), s1))"
  using assms by (simp add: del_spec_def Let_def set_io_specs_def)

text \<open>
  \<open>del_spec\<close> in a mirrored index, for a spec that is among the dependents of its
  resource. The call returns; the dependents of the resource are the former ones without
  the spec, and no other resource object changes. If no dependent remains, the resource
  is stored under no key when the call returns and is unknown to the inverse map. If a
  dependent remains, the index is unchanged.
\<close>

lemma del_spec_effect:
  assumes "bidict_inv (ios s)"
    and "spec_io (spec_heap s spec) = Some a_io"
    and "spec \<in> set (io_specs (io_heap s a_io))"
  shows "fst (del_spec s spec) = Inr ()
    \<and> io_specs (io_heap (snd (del_spec s spec)) a_io) = removeAll spec (io_specs (io_heap s a_io))
    \<and> (\<forall>r. r \<noteq> a_io \<longrightarrow> io_heap (snd (del_spec s spec)) r = io_heap s r)
    \<and> (removeAll spec (io_specs (io_heap s a_io)) = [] \<longrightarrow>
         a_io \<notin> snd ` set (forward (ios (snd (del_spec s spec))))
         \<and> map_of (inverse_map (ios (snd (del_spec s spec)))) a_io = None
         \<and> set (forward (ios (snd (del_spec s spec)))) \<subseteq> set (forward (ios s)))
    \<and> (removeAll spec (io_specs (io_heap s a_io)) \<noteq> [] \<longrightarrow>
         ios (snd (del_spec s spec)) = ios s)"
proof (cases "removeAll spec (io_specs (io_heap s a_io)) = []")
  case True
  let ?s1 = "set_io_specs a_io [] s"
  have eq: "del_spec s spec = del_io ?s1 a_io"
    using True by (simp add: del_spec_bound [OF assms(2,3)] Let_def)
  have "bidict_inv (ios ?s1)" "io_specs (io_heap ?s1 a_io) = []"
    using assms(1) by (simp_all add: set_io_specs_def)
  from del_io_unregisters [OF this] True show ?thesis
    unfolding eq by (simp add: set_io_specs_def)
next
  case False
  then show ?thesis
    by (simp add: del_spec_bound [OF assms(2,3)] Let_def set_io_specs_def)
qed

lemma shared_state_eq:
  "shared_state =
     \<lparr>ios = \<lparr>forward = [((Some 1, ''x.dat''), 0)], inverse_map = [(0, (Some 1, ''x.dat''))]\<rparr>,
      serializing = None,
      io_heap = (\<lambda>_. new_io_obj [] None)
                  (0 := \<lparr>io_path = ''x.dat'', io_specs = [0, 1], io_load_from = None\<rparr>),
      spec_heap = (\<lambda>_. new_spec_obj)
                  (0 := \<lparr>spec_manager = Some (), spec_io = Some 0, spec_is_hidden = None\<rparr>,
                   1 := \<lparr>spec_manager = Some (), spec_io = Some 0, spec_is_hidden = None\<rparr>),
      next_io = 1, next_spec = 2, trace = [LoadValue 0, LoadValue 1]\<rparr>"
  by (simp add: shared_state_def one_spec_state_eq manager_defs plain_hooks_def)

lemma del_spec_effect_example:
  "bidict_inv (ios shared_state)
   \<and> spec_io (spec_heap shared_state 1) = Some 0
   \<and> 1 \<in> set (io_specs (io_heap shared_state 0))
   \<and> fst (del_spec shared_state 1) = Inr ()
   \<and> io_specs (io_heap (snd (del_spec shared_state 1)) 0) = [0]
   \<and> ios (snd (del_spec shared_state 1)) = ios shared_state
   \<and> map_of (forward (ios (snd (del_spec shared_state 1)))) (Some 1, ''x.dat'') = Some 0
   \<and> bidict_inv (ios (snd (del_spec shared_state 1)))
   \<and> spec_io (spec_heap (snd (del_spec shared_state 1)) 0) = Some 0
   \<and> 0 \<in> set (io_specs (io_heap (snd (del_spec shared_state 1)) 0))
   \<and> fst (del_spec (snd (del_spec shared_state 1)) 0) = Inr ()
   \<and> io_specs (io_heap (snd (del_spec (snd (del_spec shared_state 1)) 0)) 0) = []
   \<and> 0 \<notin> snd ` set (forward (ios (snd (del_spec (snd (del_spec shared_state 1)) 0))))
   \<and> map_of (inverse_map (ios (snd (del_spec (snd (del_spec shared_state 1)) 0)))) 0 = None"
proof -
  have inv: "bidict_inv (ios shared_state)"
    by (simp add: shared_state_eq bidict_inv_def)
  have b: "spec_io (spec_heap shared_state 1) = Some 0"
    by (simp add: shared_state_eq)
  have m: "1 \<in> set (io_specs (io_heap shared_state 0))"
    by (simp add: shared_state_eq)
  have e: "removeAll 1 (io_specs (io_heap shared_state 0)) = [0]"
    by (simp add: shared_state_eq)
  have first: "fst (del_spec shared_state 1) = Inr ()
      \<and> io_specs (io_heap (snd (del_spec shared_state 1)) 0) = [0]
      \<and> ios (snd (del_spec shared_state 1)) = ios shared_state"
    using del_spec_effect [OF inv b m] e by simp
  have heap: "spec_heap (snd (del_spec shared_state 1)) = spec_heap shared_state"
    using b m e by (simp add: del_spec_bound Let_def set_io_specs_def)
  have inv': "bidict_inv (ios (snd (del_spec shared_state 1)))"
    using first inv by simp
  have b': "spec_io (spec_heap (snd (del_spec shared_state 1)) 0) = Some 0"
    using heap by (simp add: shared_state_eq)
  have m': "0 \<in> set (io_specs (io_heap (snd (del_spec shared_state 1)) 0))"
    using first by simp
  have e': "removeAll 0 (io_specs (io_heap (snd (del_spec shared_state 1)) 0)) = []"
    using first by simp
  have second: "fst (del_spec (snd (del_spec shared_state 1)) 0) = Inr ()
      \<and> io_specs (io_heap (snd (del_spec (snd (del_spec shared_state 1)) 0)) 0) = []
      \<and> 0 \<notin> snd ` set (forward (ios (snd (del_spec (snd (del_spec shared_state 1)) 0))))
      \<and> map_of (inverse_map (ios (snd (del_spec (snd (del_spec shared_state 1)) 0)))) 0 = None"
    using del_spec_effect [OF inv' b' m'] e' by simp
  have key: "map_of (forward (ios (snd (del_spec shared_state 1)))) (Some 1, ''x.dat'') = Some 0"
    using first by (simp add: shared_state_eq)
  show ?thesis using inv b m first key inv' b' m' second by simp
qed

section \<open>Creating a spec\<close>

lemma map_of_None_delete_id: "map_of xs k = None \<Longrightarrow> AList.delete k xs = xs"
  by (rule delete_id) (simp add: map_of_eq_None_iff)

lemma new_io_fresh:
  assumes "get_io s io_group p = None"
  shows "new_io s io_group p lf =
    (Inr (next_io s),
     s\<lparr>io_heap := (io_heap s)(next_io s := new_io_obj p lf),
       next_io := Suc (next_io s),
       ios := bidict_store (get_io_key io_group p) (next_io s) (ios s)\<rparr>)"
proof -
  have "map_of (forward (ios s)) (get_io_key io_group p) = None"
    using assms by (simp add: get_io_def)
  then show ?thesis
    by (simp add: new_io_def alloc_io_def get_io_def new_io_obj_def set_ios_def bidict_setitem_new)
qed

lemma get_or_create_io_fresh:
  assumes "get_io s io_group p = None"
  shows "get_or_create_io s io_group p lf =
    (Inr (next_io s),
     s\<lparr>io_heap := (io_heap s)(next_io s := new_io_obj p lf),
       next_io := Suc (next_io s),
       ios := bidict_store (get_io_key io_group p) (next_io s) (ios s)\<rparr>)"
  using assms by (simp add: get_or_create_io_def new_io_fresh)

lemma get_or_create_io_found:
  "get_io s io_group p = Some a_io \<Longrightarrow> get_or_create_io s io_group p lf = (Inr a_io, s)"
  by (simp add: get_or_create_io_def)

lemma get_io_spec_fields:
  "get_io (set_spec_manager spec m s) io_group p = get_io s io_group p"
  "get_io (set_spec_io spec r s) io_group p = get_io s io_group p"
  "get_io (snd (alloc_spec s)) io_group p = get_io s io_group p"
  by (simp_all add: get_io_def set_spec_manager_def set_spec_io_def alloc_spec_def)

lemma bidict_delitem_after_store:
  assumes "map_of (forward d) k = None"
  shows "bidict_delitem k (bidict_store k v d)
     = Inr (d\<lparr>inverse_map := AList.delete v (inverse_map d)\<rparr>)"
proof -
  have "AList.delete k (forward d) = forward d"
    using assms by (rule map_of_None_delete_id)
  then show ?thesis
    by (simp add: bidict_delitem_def bidict_store_def contains_def update_conv' delete_update_same)
qed

lemma new_spec_load_fails_fresh:
  assumes fresh: "get_io s io_group p = None"
    and fails: "on_load_value h (next_spec s) = Some e"
  shows "new_spec h s io_group p lf =
    (Inl (HookRaised e),
     s\<lparr>ios := (ios s)\<lparr>inverse_map := AList.delete (next_io s) (inverse_map (ios s))\<rparr>,
       io_heap := (io_heap s)(next_io s := new_io_obj p lf),
       spec_heap := (spec_heap s)
          (next_spec s := \<lparr>spec_manager = Some (), spec_io = Some (next_io s), spec_is_hidden = None\<rparr>),
       next_io := Suc (next_io s),
       next_spec := Suc (next_spec s),
       trace := trace s @ [LoadValue (next_spec s)]\<rparr>)"
proof -
  let ?k = "get_io_key io_group p"
  let ?s1 = "set_spec_manager (next_spec s) (Some ()) (snd (alloc_spec s))"
  let ?s2 = "?s1\<lparr>io_heap := (io_heap ?s1)(next_io ?s1 := new_io_obj p lf),
                  next_io := Suc (next_io ?s1),
                  ios := bidict_store ?k (next_io ?s1) (ios ?s1)\<rparr>"
  let ?s3 = "log (LoadValue (next_spec s)) (set_spec_io (next_spec s) (Some (next_io s)) ?s2)"
  have none: "map_of (forward (ios s)) ?k = None" using fresh by (simp add: get_io_def)
  have alloc: "alloc_spec s = (next_spec s, snd (alloc_spec s))" by (simp add: alloc_spec_def)
  have fresh1: "get_io ?s1 io_group p = None"
    using fresh by (simp add: get_io_spec_fields)
  have next1: "next_io ?s1 = next_io s" "ios ?s1 = ios s"
    by (simp_all add: set_spec_manager_def alloc_spec_def)
  have goc: "get_or_create_io ?s1 io_group p lf = (Inr (next_io s), ?s2)"
    using get_or_create_io_fresh [OF fresh1, of lf] next1 by simp
  have tried: "new_spec_try h (set_spec_io (next_spec s) (Some (next_io s)) ?s2) (next_io s) (next_spec s)
      = (Inl (HookRaised e), ?s3)"
    using fails by (simp add: new_spec_try_def)
  have empty: "io_specs (io_heap ?s3 (next_io s)) = []"
    "io_path (io_heap ?s3 (next_io s)) = p"
    "ios ?s3 = bidict_store ?k (next_io s) (ios s)"
    by (simp_all add: log_def set_spec_io_def set_spec_manager_def alloc_spec_def new_io_obj_def)
  have "new_spec h s io_group p lf
      = (Inl (HookRaised e),
         ?s3\<lparr>ios := (ios s)\<lparr>inverse_map := AList.delete (next_io s) (inverse_map (ios s))\<rparr>\<rparr>)"
    unfolding new_spec_def
    by (subst alloc) (simp add: goc tried empty bidict_delitem_after_store [OF none])
  then show ?thesis
    by (simp add: log_def set_spec_io_def set_spec_manager_def alloc_spec_def new_io_obj_def
        new_spec_obj_def)
qed

text \<open>
  Claim C3. Let \<open>new_spec\<close> find no resource under the resolved key, so that it creates
  one, and let the load hook of the new spec raise \<open>e\<close>. Then the call raises \<open>e\<close>;
  afterwards the key is free and the forward map is what it was before the call, the
  created resource is unknown to the inverse map, and the dependents of every resource
  are what they were (none for the created one), so that the new spec, which no
  resource listed before, is listed by none.
\<close>

theorem new_spec_rollback:
  assumes "get_io s io_group p = None"
    and "on_load_value h (next_spec s) = Some e"
    and "\<forall>r. next_spec s \<notin> set (io_specs (io_heap s r))"
  shows "fst (new_spec h s io_group p lf) = Inl (HookRaised e)
    \<and> \<not> contains (forward (ios (snd (new_spec h s io_group p lf)))) (get_io_key io_group p)
    \<and> forward (ios (snd (new_spec h s io_group p lf))) = forward (ios s)
    \<and> \<not> contains (inverse_map (ios (snd (new_spec h s io_group p lf)))) (next_io s)
    \<and> (\<forall>r. io_specs (io_heap (snd (new_spec h s io_group p lf)) r)
            = (if r = next_io s then [] else io_specs (io_heap s r)))
    \<and> (\<forall>r. next_spec s \<notin> set (io_specs (io_heap (snd (new_spec h s io_group p lf)) r)))"
proof -
  have "map_of (forward (ios s)) (get_io_key io_group p) = None"
    using assms(1) by (simp add: get_io_def)
  then show ?thesis
    using assms(3)
    by (simp add: new_spec_load_fails_fresh [OF assms(1,2)] contains_def delete_conv'
        new_io_obj_def)
qed

theorem new_spec_rollback_witness:
  "get_io one_spec_state (Some 1) ''y.dat'' = None
   \<and> on_load_value base_hooks (next_spec one_spec_state) = Some ''NotImplementedError''
   \<and> fst (new_spec base_hooks one_spec_state (Some 1) ''y.dat'' None)
       = Inl (HookRaised ''NotImplementedError'')
   \<and> forward (ios (snd (new_spec base_hooks one_spec_state (Some 1) ''y.dat'' None)))
       = [((Some 1, ''x.dat''), 0)]
   \<and> \<not> contains (forward (ios (snd (new_spec base_hooks one_spec_state (Some 1) ''y.dat'' None))))
         (Some 1, ''y.dat'')
   \<and> io_specs (io_heap (snd (new_spec base_hooks one_spec_state (Some 1) ''y.dat'' None)) 0) = [0]
   \<and> io_specs (io_heap (snd (new_spec base_hooks one_spec_state (Some 1) ''y.dat'' None)) 1) = []"
proof -
  have a: "get_io one_spec_state (Some 1) ''y.dat'' = None"
    by (simp add: one_spec_state_eq get_io_def get_io_key_def)
  have b: "on_load_value base_hooks (next_spec one_spec_state) = Some ''NotImplementedError''"
    by (simp add: base_hooks_def)
  have c: "\<forall>r. next_spec one_spec_state \<notin> set (io_specs (io_heap one_spec_state r))"
    by (simp add: one_spec_state_eq new_io_obj_def)
  have k: "get_io_key (Some 1) ''y.dat'' = (Some 1, ''y.dat'')"
    by (simp add: get_io_key_def)
  have f: "forward (ios one_spec_state) = [((Some 1, ''x.dat''), 0)]"
    "next_io one_spec_state = 1" "io_specs (io_heap one_spec_state 0) = [0]"
    by (simp_all add: one_spec_state_eq)
  show ?thesis
    using new_spec_rollback [OF a b c, of None] a b k f by (simp add: contains_def)
qed

section \<open>Steps that keep the index\<close>

lemma index_same_refl: "index_same s s"
  by (simp add: index_same_def)

lemma index_same_trans: "index_same s s' \<Longrightarrow> index_same s' s'' \<Longrightarrow> index_same s s''"
  by (simp add: index_same_def)

lemma manager_inv_index_same:
  assumes "manager_inv s" "index_same s s'"
  shows "manager_inv s'"
proof -
  from assms(2) have eq: "ios s' = ios s" "next_io s' = next_io s"
    and keep: "\<And>r. io_specs (io_heap s r) \<noteq> [] \<Longrightarrow> io_specs (io_heap s' r) \<noteq> []"
    by (simp_all add: index_same_def)
  have "no_orphan s'"
    using assms(1) keep unfolding manager_inv_def no_orphan_def eq list_all_iff by auto
  then show ?thesis
    using assms(1) by (simp add: manager_inv_def index_fresh_def eq)
qed

lemma index_same_log: "index_same s (log e s)"
  by (simp add: index_same_def log_def)

lemma index_same_alloc_spec: "index_same s (snd (alloc_spec s))"
  by (simp add: index_same_def alloc_spec_def)

lemma index_same_set_spec_manager: "index_same s (set_spec_manager spec m s)"
  by (simp add: index_same_def set_spec_manager_def)

lemma index_same_set_spec_io: "index_same s (set_spec_io spec r s)"
  by (simp add: index_same_def set_spec_io_def)

lemma index_same_set_spec_is_hidden: "index_same s (set_spec_is_hidden spec b s)"
  by (simp add: index_same_def set_spec_is_hidden_def)

lemma index_same_add_spec: "index_same s (snd (add_spec h s a_io spec))"
  by (simp add: index_same_def add_spec_def set_io_specs_def split: sum.splits)

lemma index_same_new_spec_try: "index_same s (snd (new_spec_try h s a_io spec))"
proof (cases "on_load_value h spec")
  case None
  then have "snd (new_spec_try h s a_io spec) = snd (add_spec h (log (LoadValue spec) s) a_io spec)"
    by (simp add: new_spec_try_def)
  then show ?thesis
    using index_same_trans [OF index_same_log index_same_add_spec] by simp
next
  case (Some e)
  then show ?thesis by (simp add: new_spec_try_def index_same_log)
qed

lemma index_same_update_spec_value:
  "index_same s (snd (update_spec_value h s spec v kwargs))"
  by (simp add: update_spec_value_def index_same_def log_def split: sum.splits option.splits)

lemma index_same_setstate_dispatch: "index_same s (snd (setstate_dispatch h s spec st))"
proof -
  have a: "\<And>a_io. index_same s (snd (add_spec h (log (Unserialize spec) s) a_io spec))"
    by (rule index_same_trans [OF index_same_log index_same_add_spec])
  show ?thesis
    by (simp add: setstate_dispatch_def index_same_refl index_same_log a
        split: option.splits bool.splits)
qed

lemma index_same_setstate: "index_same s (snd (setstate h s spec st))"
proof (cases "st_manager st")
  case None
  then show ?thesis by (simp add: setstate_def index_same_refl)
next
  case (Some m)
  show ?thesis
  proof (cases "case st_io st of Some r \<Rightarrow> Some r | None \<Rightarrow> st_data st")
    case None
    with Some show ?thesis by (simp add: setstate_def Let_def index_same_set_spec_manager)
  next
    case (Some r)
    let ?s3 = "set_spec_is_hidden spec
        (case st_is_hidden st of Some b \<Rightarrow> Some b | None \<Rightarrow> Some False)
        (set_spec_io spec r (set_spec_manager spec m s))"
    have "index_same s ?s3"
      by (rule index_same_trans [OF index_same_trans [OF index_same_set_spec_manager
              index_same_set_spec_io] index_same_set_spec_is_hidden])
    then have "index_same s (snd (setstate_dispatch h ?s3 spec st))"
      using index_same_setstate_dispatch by (rule index_same_trans)
    with Some \<open>st_manager st = Some m\<close> show ?thesis by (simp add: setstate_def Let_def)
  qed
qed

section \<open>Steps that change the index\<close>

lemma manager_inv_registered:
  assumes "manager_inv s" "map_of (forward (ios s)) k = Some a_io"
  shows "a_io < next_io s" "io_specs (io_heap s a_io) \<noteq> []"
proof -
  from assms(2) have "(k, a_io) \<in> set (forward (ios s))" by (rule map_of_SomeD)
  with assms(1) show "a_io < next_io s" "io_specs (io_heap s a_io) \<noteq> []"
    by (auto simp: manager_inv_def index_fresh_def no_orphan_def list_all_iff)
qed

lemma manager_inv_next_io_unregistered:
  assumes "manager_inv s"
  shows "map_of (inverse_map (ios s)) (next_io s) = None"
proof (cases "map_of (inverse_map (ios s)) (next_io s)")
  case (Some k)
  from assms have "bidict_inv (ios s)" by (simp add: manager_inv_def)
  then have "map_of (forward (ios s)) k = Some (next_io s)"
    using Some by (rule bidict_inv_forward_of_inverse)
  then have "next_io s < next_io s" by (rule manager_inv_registered(1) [OF assms])
  then show ?thesis by simp
qed simp

lemma update_values: "snd ` set (AList.update k v xs) \<subseteq> insert v (snd ` set xs)"
  by (induction xs) auto

lemma manager_inv_store:
  assumes inv: "manager_inv s"
    and free: "map_of (forward (ios s)) k = None"
    and unreg: "map_of (inverse_map (ios s)) a_io = None"
    and ios': "ios s' = bidict_store k a_io (ios s)"
    and alloc: "a_io < next_io s'" "next_io s \<le> next_io s'"
    and deps: "io_specs (io_heap s' a_io) \<noteq> []"
    and heap: "\<And>r. r \<noteq> a_io \<Longrightarrow> io_specs (io_heap s r) \<noteq> [] \<Longrightarrow> io_specs (io_heap s' r) \<noteq> []"
  shows "manager_inv s'"
proof -
  have b: "bidict_inv (ios s')"
    unfolding ios' using inv free unreg by (simp add: manager_inv_def bidict_store_inv)
  have vals: "snd ` set (forward (ios s')) \<subseteq> insert a_io (snd ` set (forward (ios s)))"
    unfolding ios' by (simp add: bidict_store_def update_values)
  have old: "\<And>v. v \<in> snd ` set (forward (ios s)) \<Longrightarrow> v < next_io s \<and> io_specs (io_heap s v) \<noteq> []"
    using inv by (auto simp: manager_inv_def index_fresh_def no_orphan_def list_all_iff)
  have "\<And>kv. kv \<in> set (forward (ios s')) \<Longrightarrow>
      snd kv < next_io s' \<and> io_specs (io_heap s' (snd kv)) \<noteq> []"
  proof -
    fix kv assume "kv \<in> set (forward (ios s'))"
    then have "snd kv \<in> insert a_io (snd ` set (forward (ios s)))" using vals by blast
    then show "snd kv < next_io s' \<and> io_specs (io_heap s' (snd kv)) \<noteq> []"
      using old alloc deps heap by (cases "snd kv = a_io") force+
  qed
  then show ?thesis
    using b by (auto simp: manager_inv_def index_fresh_def no_orphan_def list_all_iff)
qed

lemma manager_inv_restore_io:
  assumes "manager_inv s" "a_io < next_io s" "\<not> contains (inverse_map (ios s)) a_io"
    "io_specs (io_heap s a_io) \<noteq> []"
  shows "manager_inv (snd (restore_io s io_group a_io))"
proof (cases "get_io s io_group (io_path (io_heap s a_io))")
  case None
  let ?k = "get_io_key io_group (io_path (io_heap s a_io))"
  have free: "map_of (forward (ios s)) ?k = None" using None by (simp add: get_io_def)
  have unreg: "map_of (inverse_map (ios s)) a_io = None"
    using assms(3) by (cases "map_of (inverse_map (ios s)) a_io") (simp_all add: contains_def)
  have res: "snd (restore_io s io_group a_io) = s\<lparr>ios := bidict_store ?k a_io (ios s)\<rparr>"
    using None free by (simp add: restore_io_def set_ios_def bidict_setitem_new)
  show ?thesis
    unfolding res
    by (rule manager_inv_store [OF assms(1) free unreg]) (use assms in simp_all)
next
  case (Some r)
  then show ?thesis using assms(1) by (simp add: restore_io_def)
qed

lemma manager_inv_del_spec:
  assumes inv: "manager_inv s"
  shows "manager_inv (snd (del_spec s spec))"
proof (cases "spec_io (spec_heap s spec)")
  case None
  then show ?thesis using inv by (simp add: del_spec_def)
next
  case (Some a_io)
  show ?thesis
  proof (cases "spec \<in> set (io_specs (io_heap s a_io))")
    case False
    with Some inv show ?thesis by (simp add: del_spec_def)
  next
    case True
    let ?s' = "snd (del_spec s spec)"
    have b: "bidict_inv (ios s)" using inv by (simp add: manager_inv_def)
    note r = del_spec_effect [OF b Some True]
    have old: "\<And>kv. kv \<in> set (forward (ios s)) \<Longrightarrow>
        snd kv < next_io s \<and> io_specs (io_heap s (snd kv)) \<noteq> []"
      using inv by (auto simp: manager_inv_def index_fresh_def no_orphan_def list_all_iff)
    have nxt: "next_io ?s' = next_io s"
      using del_io_unregisters [of "set_io_specs a_io [] s" a_io] b
      by (simp add: del_spec_bound [OF Some True] Let_def set_io_specs_def)
    show ?thesis
    proof (cases "removeAll spec (io_specs (io_heap s a_io)) = []")
      case empty: True
      let ?s1 = "set_io_specs a_io [] s"
      have eq: "del_spec s spec = del_io ?s1 a_io"
        using empty by (simp add: del_spec_bound [OF Some True] Let_def)
      have "bidict_inv (ios ?s1)" "io_specs (io_heap ?s1 a_io) = []"
        using b by (simp_all add: set_io_specs_def)
      from del_io_unregisters [OF this]
      have b': "bidict_inv (ios ?s')" unfolding eq by simp
      have "\<And>kv. kv \<in> set (forward (ios ?s')) \<Longrightarrow>
          snd kv < next_io ?s' \<and> io_specs (io_heap ?s' (snd kv)) \<noteq> []"
      proof -
        fix kv assume m: "kv \<in> set (forward (ios ?s'))"
        with r empty have "kv \<in> set (forward (ios s))" "snd kv \<noteq> a_io" by auto
        with old [of kv] r nxt show "snd kv < next_io ?s' \<and> io_specs (io_heap ?s' (snd kv)) \<noteq> []"
          by simp
      qed
      with b' show ?thesis
        by (auto simp: manager_inv_def index_fresh_def no_orphan_def list_all_iff)
    next
      case False
      with r have same: "ios ?s' = ios s" by simp
      have "\<And>kv. kv \<in> set (forward (ios s)) \<Longrightarrow>
          snd kv < next_io ?s' \<and> io_specs (io_heap ?s' (snd kv)) \<noteq> []"
      proof -
        fix kv assume m: "kv \<in> set (forward (ios s))"
        show "snd kv < next_io ?s' \<and> io_specs (io_heap ?s' (snd kv)) \<noteq> []"
          using old [OF m] r nxt False by (cases "snd kv = a_io") auto
      qed
      with b same show ?thesis
        by (auto simp: manager_inv_def index_fresh_def no_orphan_def list_all_iff)
    qed
  qed
qed

lemma manager_inv_update_path:
  assumes inv: "manager_inv s"
  shows "manager_inv (snd (update_path s a_io p))"
proof (cases "map_of (inverse_map (ios s)) a_io")
  case None
  then show ?thesis using inv by (simp add: update_path_def)
next
  case (Some key_old)
  obtain g path_old where ko: "key_old = (g, path_old)" by (cases key_old)
  have reg: "map_of (inverse_map (ios s)) a_io = Some (g, path_old)" using Some ko by simp
  have b: "bidict_inv (ios s)" using inv by (simp add: manager_inv_def)
  have fwd: "map_of (forward (ios s)) (g, path_old) = Some a_io"
    using b reg by (rule bidict_inv_forward_of_inverse)
  show ?thesis
  proof (cases "p = path_old")
    case True
    then show ?thesis using inv reg by (simp add: update_path_same)
  next
    case neq: False
    show ?thesis
    proof (cases "map_of (forward (ios s)) (get_io_key g p)")
      case (Some r)
      then show ?thesis using inv update_path_occupied [OF reg neq] by simp
    next
      case None
      let ?k = "get_io_key g p"
      let ?d1 = "(ios s)\<lparr>inverse_map := AList.delete a_io (inverse_map (ios s)),
                          forward := AList.delete (g, path_old) (forward (ios s))\<rparr>"
      let ?s1 = "s\<lparr>ios := ?d1\<rparr>"
      let ?s' = "(io_on_update_path a_io p ?s1)\<lparr>ios := bidict_store ?k a_io ?d1\<rparr>"
      have del: "bidict_delitem (g, path_old) (ios s) = Inr ?d1"
        using b fwd by (rule bidict_delitem_ok)
      have free1: "map_of (forward ?d1) ?k = None" using None by (simp add: delete_conv')
      have res: "snd (update_path s a_io p) = ?s'"
        using reg neq None del free1
        by (simp add: update_path_def contains_def Let_def io_on_update_path_ios set_ios_def
            bidict_setitem_new)
      have b1: "bidict_inv ?d1" using b del by (rule bidict_delitem_inv)
      have sub: "set (forward ?d1) \<subseteq> set (forward (ios s))" by (auto simp: AList.delete_eq)
      have old: "\<And>kv. kv \<in> set (forward (ios s)) \<Longrightarrow>
          snd kv < next_io s \<and> io_specs (io_heap s (snd kv)) \<noteq> []"
        using inv by (auto simp: manager_inv_def index_fresh_def no_orphan_def list_all_iff)
      have inv1: "manager_inv ?s1"
        using b1 sub old
        by (auto simp: manager_inv_def index_fresh_def no_orphan_def list_all_iff)
      have unreg: "map_of (inverse_map (ios ?s1)) a_io = None" by (simp add: delete_conv')
      have "manager_inv ?s'"
      proof (rule manager_inv_store [OF inv1 _ unreg])
        show "map_of (forward (ios ?s1)) ?k = None" using free1 by simp
        show "ios ?s' = bidict_store ?k a_io (ios ?s1)" by simp
        show "a_io < next_io ?s'"
          using manager_inv_registered(1) [OF inv fwd]
          by (simp add: io_on_update_path_def log_def)
        show "next_io ?s1 \<le> next_io ?s'" by (simp add: io_on_update_path_def log_def)
        show "io_specs (io_heap ?s' a_io) \<noteq> []"
          using manager_inv_registered(2) [OF inv fwd]
          by (simp add: io_on_update_path_def log_def)
        show "\<And>r. r \<noteq> a_io \<Longrightarrow> io_specs (io_heap ?s1 r) \<noteq> [] \<Longrightarrow> io_specs (io_heap ?s' r) \<noteq> []"
          by (simp add: io_on_update_path_def log_def)
      qed
      then show ?thesis unfolding res .
    qed
  qed
qed

lemma new_spec_load_ok_fresh:
  assumes fresh: "get_io s io_group p = None"
    and ok: "on_load_value h (next_spec s) = None"
  shows "new_spec h s io_group p lf =
    (Inr (next_spec s),
     s\<lparr>ios := bidict_store (get_io_key io_group p) (next_io s) (ios s),
       io_heap := (io_heap s)
          (next_io s := \<lparr>io_path = p, io_specs = [next_spec s], io_load_from = lf\<rparr>),
       spec_heap := (spec_heap s)
          (next_spec s := \<lparr>spec_manager = Some (), spec_io = Some (next_io s), spec_is_hidden = None\<rparr>),
       next_io := Suc (next_io s),
       next_spec := Suc (next_spec s),
       trace := trace s @ [LoadValue (next_spec s)]\<rparr>)"
proof -
  let ?k = "get_io_key io_group p"
  let ?s1 = "set_spec_manager (next_spec s) (Some ()) (snd (alloc_spec s))"
  let ?s2 = "?s1\<lparr>io_heap := (io_heap ?s1)(next_io ?s1 := new_io_obj p lf),
                  next_io := Suc (next_io ?s1),
                  ios := bidict_store ?k (next_io ?s1) (ios ?s1)\<rparr>"
  let ?s3 = "log (LoadValue (next_spec s)) (set_spec_io (next_spec s) (Some (next_io s)) ?s2)"
  have alloc: "alloc_spec s = (next_spec s, snd (alloc_spec s))" by (simp add: alloc_spec_def)
  have fresh1: "get_io ?s1 io_group p = None"
    using fresh by (simp add: get_io_spec_fields)
  have next1: "next_io ?s1 = next_io s" "ios ?s1 = ios s"
    by (simp_all add: set_spec_manager_def alloc_spec_def)
  have goc: "get_or_create_io ?s1 io_group p lf = (Inr (next_io s), ?s2)"
    using get_or_create_io_fresh [OF fresh1, of lf] next1 by simp
  have empty: "io_specs (io_heap ?s3 (next_io s)) = []"
    by (simp add: log_def set_spec_io_def set_spec_manager_def alloc_spec_def new_io_obj_def)
  have tried: "new_spec_try h (set_spec_io (next_spec s) (Some (next_io s)) ?s2) (next_io s) (next_spec s)
      = (Inr (), set_io_specs (next_io s) [next_spec s] ?s3)"
    using ok empty by (simp add: new_spec_try_def add_spec_def)
  have "new_spec h s io_group p lf = (Inr (next_spec s), set_io_specs (next_io s) [next_spec s] ?s3)"
    unfolding new_spec_def
    by (subst alloc) (simp add: goc tried)
  then show ?thesis
    by (simp add: log_def set_spec_io_def set_spec_manager_def alloc_spec_def new_io_obj_def
        new_spec_obj_def set_io_specs_def)
qed

lemma new_spec_found:
  assumes found: "get_io s io_group p = Some a_io"
  shows "new_spec h s io_group p lf =
    (let s2 = set_spec_io (next_spec s) (Some a_io)
                (set_spec_manager (next_spec s) (Some ()) (snd (alloc_spec s)));
         r = new_spec_try h s2 a_io (next_spec s)
     in case fst r of
          Inr u \<Rightarrow> (Inr (next_spec s), snd r)
        | Inl e \<Rightarrow>
            (if io_specs (io_heap (snd r) a_io) = []
             then (case bidict_delitem (get_io_key io_group (io_path (io_heap (snd r) a_io)))
                          (ios (snd r)) of
                     Inl e' \<Rightarrow> (Inl e', snd r)
                   | Inr d \<Rightarrow> (Inl e, (snd r)\<lparr>ios := d\<rparr>))
             else (Inl e, snd r)))"
proof -
  let ?s1 = "set_spec_manager (next_spec s) (Some ()) (snd (alloc_spec s))"
  have alloc: "alloc_spec s = (next_spec s, snd (alloc_spec s))" by (simp add: alloc_spec_def)
  have found1: "get_io ?s1 io_group p = Some a_io"
    using found by (simp add: get_io_spec_fields)
  show ?thesis
    unfolding new_spec_def
    by (subst alloc)
      (simp add: get_or_create_io_found [OF found1] Let_def case_prod_beta split: sum.splits)
qed

lemma manager_inv_new_spec:
  assumes inv: "manager_inv s"
  shows "manager_inv (snd (new_spec h s io_group p lf))"
proof (cases "get_io s io_group p")
  case None
  let ?k = "get_io_key io_group p"
  have free: "map_of (forward (ios s)) ?k = None" using None by (simp add: get_io_def)
  have unreg: "map_of (inverse_map (ios s)) (next_io s) = None"
    using inv by (rule manager_inv_next_io_unregistered)
  show ?thesis
  proof (cases "on_load_value h (next_spec s)")
    case (Some e)
    have same: "(ios s)\<lparr>inverse_map := AList.delete (next_io s) (inverse_map (ios s))\<rparr> = ios s"
      using unreg by (simp add: map_of_None_delete_id)
    have old: "\<And>kv. kv \<in> set (forward (ios s)) \<Longrightarrow>
        snd kv < next_io s \<and> io_specs (io_heap s (snd kv)) \<noteq> []"
      using inv by (auto simp: manager_inv_def index_fresh_def no_orphan_def list_all_iff)
    have "\<And>kv. kv \<in> set (forward (ios s)) \<Longrightarrow>
        snd kv < Suc (next_io s)
        \<and> io_specs (((io_heap s)(next_io s := new_io_obj p lf)) (snd kv)) \<noteq> []"
      using old by force
    then show ?thesis
      using inv
      by (auto simp: new_spec_load_fails_fresh [OF None Some] same manager_inv_def
          index_fresh_def no_orphan_def list_all_iff)
  next
    case ok: None
    show ?thesis
      unfolding new_spec_load_ok_fresh [OF None ok, of lf] snd_conv
      by (rule manager_inv_store [OF inv free unreg]) simp_all
  qed
next
  case (Some a_io)
  let ?s2 = "set_spec_io (next_spec s) (Some a_io)
                (set_spec_manager (next_spec s) (Some ()) (snd (alloc_spec s)))"
  let ?r = "new_spec_try h ?s2 a_io (next_spec s)"
  have "index_same s ?s2"
    by (rule index_same_trans [OF index_same_trans [OF index_same_alloc_spec
            index_same_set_spec_manager] index_same_set_spec_io])
  then have same: "index_same s (snd ?r)"
    using index_same_new_spec_try by (rule index_same_trans)
  have inv': "manager_inv (snd ?r)" using inv same by (rule manager_inv_index_same)
  have "map_of (forward (ios s)) (get_io_key io_group p) = Some a_io"
    using Some by (simp add: get_io_def)
  from manager_inv_registered(2) [OF inv this] same
  have deps: "io_specs (io_heap (snd ?r) a_io) \<noteq> []" by (simp add: index_same_def)
  have "snd (new_spec h s io_group p lf) = snd ?r"
    using deps by (simp add: new_spec_found [OF Some] Let_def split: sum.splits)
  with inv' show ?thesis by simp
qed

lemma manager_inv_init: "manager_inv init_manager"
  by (simp add: manager_inv_def init_manager_def bidict_inv_def index_fresh_def no_orphan_def)

lemma reachable_manager_inv: "reachable h s \<Longrightarrow> manager_inv s"
proof (induction rule: reachable.induct)
  case r_init
  show ?case by (rule manager_inv_init)
next
  case (r_new_spec s io_group p lf)
  then show ?case by (simp add: manager_inv_new_spec)
next
  case (r_add_spec s a_io spec)
  then show ?case by (simp add: manager_inv_index_same [OF _ index_same_add_spec])
next
  case (r_del_spec s spec)
  then show ?case by (simp add: manager_inv_del_spec)
next
  case (r_update_path s a_io p)
  then show ?case by (simp add: manager_inv_update_path)
next
  case (r_update_spec_value s spec v kwargs)
  then show ?case by (simp add: manager_inv_index_same [OF _ index_same_update_spec_value])
next
  case (r_setstate s spec st)
  then show ?case by (simp add: manager_inv_index_same [OF _ index_same_setstate])
next
  case (r_serializing s m)
  then show ?case
    by (simp add: manager_inv_def index_fresh_def no_orphan_def)
next
  case (r_restore_io s a_io io_group)
  then show ?case by (simp add: manager_inv_restore_io)
qed

section \<open>No registered resource without dependents\<close>

text \<open>
  Claim C2 as stated, refuted: \<open>get_or_create_io\<close> is a method of the manager, and
  when it returns on a new manager the resource it created is registered and has no
  dependent.
\<close>

theorem get_or_create_io_registers_orphan:
  "fst (get_or_create_io init_manager (Some 1) ''x.dat'' None) = Inr 0
   \<and> forward (ios (snd (get_or_create_io init_manager (Some 1) ''x.dat'' None)))
       = [((Some 1, ''x.dat''), 0)]
   \<and> io_specs (io_heap (snd (get_or_create_io init_manager (Some 1) ''x.dat'' None)) 0) = []
   \<and> \<not> no_orphan (snd (get_or_create_io init_manager (Some 1) ''x.dat'' None))"
proof -
  have "get_io init_manager (Some 1) ''x.dat'' = None"
    by (simp add: get_io_def init_manager_def)
  then show ?thesis
    by (simp add: get_or_create_io_fresh no_orphan_def)
      (simp add: init_manager_def bidict_store_def get_io_key_def new_io_obj_def)
qed

text \<open>
  Claim C2, amended. In every state that a new manager reaches through completed calls
  of \<open>new_spec\<close>, \<open>add_spec\<close>, \<open>del_spec\<close>, \<open>update_path\<close>, \<open>update_spec_value\<close> and
  the \<open>__setstate__\<close> of a spec, through changes of the serialisation mode, and through
  \<open>restore_io\<close> of an allocated resource that is not registered and has a dependent,
  whether the calls return or raise, no registered resource has an empty set of
  dependents.
\<close>

theorem reachable_no_orphan: "reachable h s \<Longrightarrow> no_orphan s"
proof -
  assume "reachable h s"
  then have "manager_inv s" by (rule reachable_manager_inv)
  then show "no_orphan s" by (simp add: manager_inv_def)
qed

theorem reachable_no_orphan_witness:
  "reachable plain_hooks (snd (del_spec shared_state 1))
   \<and> no_orphan (snd (del_spec shared_state 1))
   \<and> forward (ios (snd (del_spec shared_state 1))) = [((Some 1, ''x.dat''), 0)]
   \<and> io_specs (io_heap (snd (del_spec shared_state 1)) 0) = [0]"
proof -
  have "reachable plain_hooks one_spec_state"
    unfolding one_spec_state_def by (rule r_new_spec [OF r_init])
  then have "reachable plain_hooks shared_state"
    unfolding shared_state_def by (rule r_new_spec)
  then have r: "reachable plain_hooks (snd (del_spec shared_state 1))"
    by (rule r_del_spec)
  have e: "forward (ios (snd (del_spec shared_state 1))) = [((Some 1, ''x.dat''), 0)]
      \<and> io_specs (io_heap (snd (del_spec shared_state 1)) 0) = [0]"
    by (simp add: shared_state_eq del_spec_def set_io_specs_def Let_def)
  show ?thesis using reachable_no_orphan [OF r] r e by simp
qed

section \<open>Key resolution and sharing\<close>

lemma get_or_create_io_fst:
  "fst (get_or_create_io s io_group p lf)
     = Inr (case get_io s io_group p of Some a_io \<Rightarrow> a_io | None \<Rightarrow> next_io s)"
  by (cases "get_io s io_group p") (simp_all add: get_or_create_io_fresh get_or_create_io_found)

lemma get_or_create_io_registered:
  "get_io (snd (get_or_create_io s io_group p lf)) io_group p
     = Some (case get_io s io_group p of Some a_io \<Rightarrow> a_io | None \<Rightarrow> next_io s)"
  by (cases "get_io s io_group p")
    (simp_all add: get_or_create_io_fresh get_or_create_io_found get_io_def bidict_store_def
      update_conv')

lemma get_io_key_absolute: "is_absolute p \<Longrightarrow> get_io_key g p = (None, p)"
  by (simp add: get_io_key_def)

lemma get_io_key_relative: "\<not> is_absolute p \<Longrightarrow> get_io_key g p = (g, p)"
  by (simp add: get_io_key_def)

lemma get_io_absolute: "is_absolute p \<Longrightarrow> get_io s g p = get_io s g' p"
  by (simp add: get_io_def get_io_key_absolute)

lemma get_or_create_io_shared:
  assumes "is_absolute p"
  shows "fst (get_or_create_io (snd (get_or_create_io s g1 p lf1)) g2 p lf2)
     = fst (get_or_create_io s g1 p lf1)"
proof -
  let ?s1 = "snd (get_or_create_io s g1 p lf1)"
  have "get_io ?s1 g2 p = get_io ?s1 g1 p" using assms by (rule get_io_absolute)
  then show ?thesis
    by (simp add: get_or_create_io_fst [of ?s1] get_or_create_io_registered
        get_or_create_io_fst [of s])
qed

lemma get_or_create_io_isolated:
  assumes rel: "\<not> is_absolute p" and neq: "g1 \<noteq> g2"
    and inv: "bidict_inv (ios s)" and fresh: "index_fresh s"
  shows "fst (get_or_create_io (snd (get_or_create_io s g1 p lf1)) g2 p lf2)
     \<noteq> fst (get_or_create_io s g1 p lf1)"
proof -
  let ?s1 = "snd (get_or_create_io s g1 p lf1)"
  have k: "get_io_key g1 p = (g1, p)" "get_io_key g2 p = (g2, p)"
    using rel by (simp_all add: get_io_key_relative)
  have lt: "\<And>k v. map_of (forward (ios s)) k = Some v \<Longrightarrow> v < next_io s"
  proof -
    fix k v assume "map_of (forward (ios s)) k = Some v"
    then have "(k, v) \<in> set (forward (ios s))" by (rule map_of_SomeD)
    with fresh show "v < next_io s" by (auto simp: index_fresh_def list_all_iff)
  qed
  have m: "mirrored (map_of (forward (ios s))) (map_of (inverse_map (ios s)))"
    using inv by (simp add: bidict_inv_mirrored)
  show ?thesis
  proof (cases "get_io s g1 p")
    case None
    then have s1: "get_io ?s1 g2 p = get_io s g2 p" "next_io ?s1 = Suc (next_io s)"
      using neq k
      by (simp_all add: get_or_create_io_fresh get_io_def bidict_store_def update_conv')
    show ?thesis
    proof (cases "get_io s g2 p")
      case n2: None
      with None s1 show ?thesis by (simp add: get_or_create_io_fst)
    next
      case (Some b)
      then have "b < next_io s" using lt by (simp add: get_io_def)
      with None Some s1 show ?thesis by (simp add: get_or_create_io_fst)
    qed
  next
    case (Some a)
    then have s1: "?s1 = s" by (simp add: get_or_create_io_found)
    have a: "map_of (forward (ios s)) (g1, p) = Some a" using Some k by (simp add: get_io_def)
    show ?thesis
    proof (cases "get_io s g2 p")
      case None
      from lt [OF a] have "a \<noteq> next_io s" by simp
      with None Some s1 show ?thesis by (simp add: get_or_create_io_fst)
    next
      case b: (Some b)
      then have "map_of (forward (ios s)) (g2, p) = Some b" using k by (simp add: get_io_def)
      with mirrored_inj [OF m a, of "(g2, p)"] neq have "b \<noteq> a" by auto
      with b Some s1 show ?thesis by (simp add: get_or_create_io_fst)
    qed
  qed
qed

lemma new_spec_try_frame:
  "spec_heap (snd (new_spec_try h s a_io spec)) = spec_heap s"
  "next_spec (snd (new_spec_try h s a_io spec)) = next_spec s"
  "ios (snd (new_spec_try h s a_io spec)) = ios s"
  by (simp_all add: new_spec_try_def add_spec_def set_io_specs_def log_def
      split: option.splits sum.splits)

lemma new_spec_returns:
  assumes "fst (new_spec h s io_group p lf) = Inr spec"
  shows "spec = next_spec s
    \<and> next_spec (snd (new_spec h s io_group p lf)) = Suc (next_spec s)
    \<and> spec_heap (snd (new_spec h s io_group p lf))
        = (spec_heap s)(next_spec s := \<lparr>spec_manager = Some (),
             spec_io = Some (bound_io s io_group p), spec_is_hidden = None\<rparr>)
    \<and> get_io (snd (new_spec h s io_group p lf)) io_group p = Some (bound_io s io_group p)"
proof (cases "get_io s io_group p")
  case None
  show ?thesis
  proof (cases "on_load_value h (next_spec s)")
    case (Some e)
    with assms None show ?thesis by (simp add: new_spec_load_fails_fresh)
  next
    case ok: None
    with assms None show ?thesis
      by (simp add: new_spec_load_ok_fresh bound_io_def get_io_def bidict_store_def update_conv')
  qed
next
  case (Some a_io)
  let ?s2 = "set_spec_io (next_spec s) (Some a_io)
                (set_spec_manager (next_spec s) (Some ()) (snd (alloc_spec s)))"
  let ?r = "new_spec_try h ?s2 a_io (next_spec s)"
  from assms obtain u where u: "fst ?r = Inr u"
    by (cases "fst ?r") (simp_all add: new_spec_found [OF Some] Let_def split: if_splits sum.splits)
  then have eq: "new_spec h s io_group p lf = (Inr (next_spec s), snd ?r)"
    by (simp add: new_spec_found [OF Some] Let_def)
  have "get_io (snd ?r) io_group p = get_io s io_group p"
    by (simp add: get_io_def new_spec_try_frame set_spec_io_def set_spec_manager_def alloc_spec_def)
  with assms Some show ?thesis
    unfolding eq
    by (simp add: new_spec_try_frame bound_io_def set_spec_io_def set_spec_manager_def
        alloc_spec_def new_spec_obj_def)
qed

lemma bound_io_shared:
  assumes "is_absolute p" "get_io s g1 p = Some a"
  shows "bound_io s g2 p = a"
  using assms get_io_absolute [of p s g2 g1] by (simp add: bound_io_def)

lemma bound_io_isolated:
  assumes rel: "\<not> is_absolute p" and neq: "g1 \<noteq> g2"
    and inv: "manager_inv s" and reg: "get_io s g1 p = Some a"
  shows "bound_io s g2 p \<noteq> a"
proof -
  have a: "map_of (forward (ios s)) (g1, p) = Some a"
    using reg rel by (simp add: get_io_def get_io_key_relative)
  have m: "mirrored (map_of (forward (ios s))) (map_of (inverse_map (ios s)))"
    using inv by (simp add: manager_inv_def bidict_inv_mirrored)
  show ?thesis
  proof (cases "get_io s g2 p")
    case None
    with manager_inv_registered(1) [OF inv a] show ?thesis by (simp add: bound_io_def)
  next
    case (Some b)
    then have "map_of (forward (ios s)) (g2, p) = Some b"
      using rel by (simp add: get_io_def get_io_key_relative)
    with mirrored_inj [OF m a, of "(g2, p)"] neq have "b \<noteq> a" by auto
    with Some show ?thesis by (simp add: bound_io_def)
  qed
qed

lemma new_spec_twice:
  assumes one: "fst (new_spec h s g1 p lf1) = Inr spec1"
    and two: "fst (new_spec h (snd (new_spec h s g1 p lf1)) g2 p lf2) = Inr spec2"
  shows "spec_io (spec_heap (snd (new_spec h (snd (new_spec h s g1 p lf1)) g2 p lf2)) spec1)
        = Some (bound_io s g1 p)"
    and "spec_io (spec_heap (snd (new_spec h (snd (new_spec h s g1 p lf1)) g2 p lf2)) spec2)
        = Some (bound_io (snd (new_spec h s g1 p lf1)) g2 p)"
    and "get_io (snd (new_spec h s g1 p lf1)) g1 p = Some (bound_io s g1 p)"
proof -
  let ?s1 = "snd (new_spec h s g1 p lf1)"
  note r1 = new_spec_returns [OF one]
  note r2 = new_spec_returns [OF two]
  from r1 r2 have neq: "spec1 \<noteq> spec2" by simp
  show "spec_io (spec_heap (snd (new_spec h ?s1 g2 p lf2)) spec1) = Some (bound_io s g1 p)"
    using r1 r2 neq by simp
  show "spec_io (spec_heap (snd (new_spec h ?s1 g2 p lf2)) spec2) = Some (bound_io ?s1 g2 p)"
    using r2 by simp
  show "get_io ?s1 g1 p = Some (bound_io s g1 p)" using r1 by simp
qed

text \<open>
  An absolute path resolves to the key \<open>(None, path)\<close> whatever the group, a relative
  path to \<open>(group, path)\<close>. Two calls of \<open>get_or_create_io\<close> in a row with the same
  absolute path return the same resource, and two calls of \<open>new_spec\<close> that both
  return bind their specs to the same resource, in every state. With the same relative
  path and two different groups, the two calls of \<open>get_or_create_io\<close> return different
  resources when the index is mirrored and holds allocated resources only, and the two
  specs are bound to different resources in a well-formed manager.
\<close>

lemma key_resolution_sharing_mirrored:
  "(is_absolute p \<longrightarrow> get_io_key g p = (None, p))
   \<and> (\<not> is_absolute p \<longrightarrow> get_io_key g p = (g, p))
   \<and> (is_absolute p \<longrightarrow>
        fst (get_or_create_io (snd (get_or_create_io s g1 p lf1)) g2 p lf2)
          = fst (get_or_create_io s g1 p lf1))
   \<and> (\<not> is_absolute p \<and> g1 \<noteq> g2 \<and> bidict_inv (ios s) \<and> index_fresh s \<longrightarrow>
        fst (get_or_create_io (snd (get_or_create_io s g1 p lf1)) g2 p lf2)
          \<noteq> fst (get_or_create_io s g1 p lf1))
   \<and> (fst (new_spec h s g1 p lf1) = Inr spec1
        \<and> fst (new_spec h (snd (new_spec h s g1 p lf1)) g2 p lf2) = Inr spec2 \<longrightarrow>
        (\<exists>a b. spec_io (spec_heap (snd (new_spec h (snd (new_spec h s g1 p lf1)) g2 p lf2)) spec1)
                  = Some a
              \<and> spec_io (spec_heap (snd (new_spec h (snd (new_spec h s g1 p lf1)) g2 p lf2)) spec2)
                  = Some b
              \<and> (is_absolute p \<longrightarrow> a = b)
              \<and> (\<not> is_absolute p \<and> g1 \<noteq> g2 \<and> manager_inv s \<longrightarrow> a \<noteq> b)))"
proof (intro conjI impI)
  assume "is_absolute p" then show "get_io_key g p = (None, p)" by (rule get_io_key_absolute)
next
  assume "\<not> is_absolute p" then show "get_io_key g p = (g, p)" by (rule get_io_key_relative)
next
  assume "is_absolute p"
  then show "fst (get_or_create_io (snd (get_or_create_io s g1 p lf1)) g2 p lf2)
      = fst (get_or_create_io s g1 p lf1)"
    by (rule get_or_create_io_shared)
next
  assume "\<not> is_absolute p \<and> g1 \<noteq> g2 \<and> bidict_inv (ios s) \<and> index_fresh s"
  then show "fst (get_or_create_io (snd (get_or_create_io s g1 p lf1)) g2 p lf2)
      \<noteq> fst (get_or_create_io s g1 p lf1)"
    by (simp add: get_or_create_io_isolated)
next
  let ?s1 = "snd (new_spec h s g1 p lf1)"
  let ?s2 = "snd (new_spec h ?s1 g2 p lf2)"
  assume "fst (new_spec h s g1 p lf1) = Inr spec1 \<and> fst (new_spec h ?s1 g2 p lf2) = Inr spec2"
  then have one: "fst (new_spec h s g1 p lf1) = Inr spec1"
    and two: "fst (new_spec h ?s1 g2 p lf2) = Inr spec2" by simp_all
  note t = new_spec_twice [OF one two]
  have sh: "is_absolute p \<longrightarrow> bound_io s g1 p = bound_io ?s1 g2 p"
    using bound_io_shared [OF _ t(3), of g2] by simp
  have iso: "\<not> is_absolute p \<and> g1 \<noteq> g2 \<and> manager_inv s \<longrightarrow> bound_io s g1 p \<noteq> bound_io ?s1 g2 p"
  proof
    assume a: "\<not> is_absolute p \<and> g1 \<noteq> g2 \<and> manager_inv s"
    then have inv1: "manager_inv ?s1" by (simp add: manager_inv_new_spec)
    from a have rel: "\<not> is_absolute p" and neq: "g1 \<noteq> g2" by simp_all
    from bound_io_isolated [OF rel neq inv1 t(3)]
    show "bound_io s g1 p \<noteq> bound_io ?s1 g2 p" by simp
  qed
  show "\<exists>a b. spec_io (spec_heap ?s2 spec1) = Some a \<and> spec_io (spec_heap ?s2 spec2) = Some b
      \<and> (is_absolute p \<longrightarrow> a = b)
      \<and> (\<not> is_absolute p \<and> g1 \<noteq> g2 \<and> manager_inv s \<longrightarrow> a \<noteq> b)"
    using t(1,2) sh iso by blast
qed

lemma key_resolution_sharing_example:
  "is_absolute ''/tmp/x''
   \<and> get_io_key (Some 1) ''/tmp/x'' = (None, ''/tmp/x'')
   \<and> \<not> is_absolute ''x.dat''
   \<and> get_io_key (Some 1) ''x.dat'' = (Some 1, ''x.dat'')
   \<and> fst (get_or_create_io init_manager (Some 1) ''/tmp/x'' None) = Inr 0
   \<and> fst (get_or_create_io (snd (get_or_create_io init_manager (Some 1) ''/tmp/x'' None))
            (Some 2) ''/tmp/x'' None) = Inr 0
   \<and> bidict_inv (ios init_manager) \<and> index_fresh init_manager \<and> manager_inv init_manager
   \<and> fst (get_or_create_io init_manager (Some 1) ''x.dat'' None) = Inr 0
   \<and> fst (get_or_create_io (snd (get_or_create_io init_manager (Some 1) ''x.dat'' None))
            (Some 2) ''x.dat'' None) = Inr 1
   \<and> fst (new_spec plain_hooks init_manager (Some 1) ''/tmp/x'' None) = Inr 0
   \<and> fst (new_spec plain_hooks (snd (new_spec plain_hooks init_manager (Some 1) ''/tmp/x'' None))
            (Some 2) ''/tmp/x'' None) = Inr 1
   \<and> spec_io (spec_heap (snd (new_spec plain_hooks
          (snd (new_spec plain_hooks init_manager (Some 1) ''/tmp/x'' None))
          (Some 2) ''/tmp/x'' None)) 0)
       = spec_io (spec_heap (snd (new_spec plain_hooks
          (snd (new_spec plain_hooks init_manager (Some 1) ''/tmp/x'' None))
          (Some 2) ''/tmp/x'' None)) 1)
   \<and> fst (new_spec plain_hooks init_manager (Some 1) ''x.dat'' None) = Inr 0
   \<and> fst (new_spec plain_hooks (snd (new_spec plain_hooks init_manager (Some 1) ''x.dat'' None))
            (Some 2) ''x.dat'' None) = Inr 1
   \<and> spec_io (spec_heap (snd (new_spec plain_hooks
          (snd (new_spec plain_hooks init_manager (Some 1) ''x.dat'' None))
          (Some 2) ''x.dat'' None)) 0)
       \<noteq> spec_io (spec_heap (snd (new_spec plain_hooks
          (snd (new_spec plain_hooks init_manager (Some 1) ''x.dat'' None))
          (Some 2) ''x.dat'' None)) 1)"
proof -
  let ?abs = "''/tmp/x''" and ?rel = "''x.dat''"
  have p: "is_absolute ?abs" "\<not> is_absolute ?rel" by simp_all
  have inv: "manager_inv init_manager" by (rule manager_inv_init)
  then have wf: "bidict_inv (ios init_manager)" "index_fresh init_manager"
    by (simp_all add: manager_inv_def)
  have g: "get_io init_manager (Some 1) ?abs = None" "get_io init_manager (Some 1) ?rel = None"
    by (simp_all add: get_io_def init_manager_def)
  have first: "fst (get_or_create_io init_manager (Some 1) ?abs None) = Inr 0"
    "fst (get_or_create_io init_manager (Some 1) ?rel None) = Inr 0"
    by (simp_all add: manager_defs)
  have second: "fst (get_or_create_io (snd (get_or_create_io init_manager (Some 1) ?rel None))
      (Some 2) ?rel None) = Inr 1"
    by (simp add: manager_defs)
  have n1: "fst (new_spec plain_hooks init_manager (Some 1) ?abs None) = Inr 0"
    "fst (new_spec plain_hooks init_manager (Some 1) ?rel None) = Inr 0"
    by (simp_all add: manager_defs plain_hooks_def)
  have n2a: "fst (new_spec plain_hooks (snd (new_spec plain_hooks init_manager (Some 1) ?abs None))
      (Some 2) ?abs None) = Inr 1"
    by (simp add: manager_defs plain_hooks_def)
  have n2r: "fst (new_spec plain_hooks (snd (new_spec plain_hooks init_manager (Some 1) ?rel None))
      (Some 2) ?rel None) = Inr 1"
    by (simp add: manager_defs plain_hooks_def)
  show ?thesis
    using key_resolution_sharing_mirrored [of ?abs "Some 1" init_manager "Some 1" None "Some 2" None
        plain_hooks 0 1]
      key_resolution_sharing_mirrored [of ?rel "Some 1" init_manager "Some 1" None "Some 2" None
        plain_hooks 0 1]
      p inv wf first second n1 n2a n2r
    by auto
qed

section \<open>A resource registered under two keys\<close>

lemmas index_defs =
  restore_io_def get_io_def get_io_key_def set_ios_def bidict_setitem_def bidict_store_def
  bidict_delitem_def contains_def update_path_def io_on_update_path_def log_def

lemma double_state_eq:
  "double_state = restored_state\<lparr>ios :=
      \<lparr>forward = [((Some 1, ''x.dat''), 0), ((Some 2, ''x.dat''), 0)],
       inverse_map = [(0, (Some 2, ''x.dat''))]\<rparr>\<rparr>"
  by (simp add: double_state_def index_defs restored_state_def init_manager_def)

lemma double_state_calls:
  "fst (restore_io restored_state (Some 1) 0) = Inr ()"
  "fst (restore_io (snd (restore_io restored_state (Some 1) 0)) (Some 2) 0) = Inr ()"
  by (simp_all add: index_defs restored_state_def init_manager_def)

lemma moved_state_eq:
  "update_path double_state 0 ''y.dat'' =
     (Inr (), restored_state\<lparr>ios :=
        \<lparr>forward = [((Some 1, ''x.dat''), 0), ((Some 2, ''y.dat''), 0)],
         inverse_map = [(0, (Some 2, ''y.dat''))]\<rparr>,
       io_heap := (io_heap restored_state)
         (0 := \<lparr>io_path = ''y.dat'', io_specs = [0], io_load_from = None\<rparr>),
       trace := [IOUpdatePath 0 ''y.dat'']\<rparr>)"
  by (simp add: double_state_eq index_defs restored_state_def init_manager_def Let_def)

lemma renamed_state_eq:
  "restore_io (snd (update_path double_state 0 ''y.dat'')) (Some 1) 0 =
     (Inr (), restored_state\<lparr>ios :=
        \<lparr>forward = [((Some 1, ''x.dat''), 0), ((Some 2, ''y.dat''), 0), ((Some 1, ''y.dat''), 0)],
         inverse_map = [(0, (Some 1, ''y.dat''))]\<rparr>,
       io_heap := (io_heap restored_state)
         (0 := \<lparr>io_path = ''y.dat'', io_specs = [0], io_load_from = None\<rparr>),
       trace := [IOUpdatePath 0 ''y.dat'']\<rparr>)"
  unfolding moved_state_eq
  by (simp add: index_defs restored_state_def init_manager_def)

text \<open>
  Claim C4, at the input where the code departs from it. All four calls that lead to
  the state return. The resource is then registered under \<open>(Some 1, y.dat)\<close>, which
  is also what the inverse map says, and has the path \<open>y.dat\<close>. Renaming it to
  \<open>x.dat\<close> resolves to a key that no other resource holds: the resource holds it
  itself, left there by the first registration. The claim has the call move the
  resource; \<open>update_path\<close> raises the \<open>ValueError\<close> of a duplicate.
\<close>

theorem update_path_own_key_raises:
  "fst (restore_io restored_state (Some 1) 0) = Inr ()
   \<and> fst (restore_io (snd (restore_io restored_state (Some 1) 0)) (Some 2) 0) = Inr ()
   \<and> fst (update_path double_state 0 ''y.dat'') = Inr ()
   \<and> fst (restore_io (snd (update_path double_state 0 ''y.dat'')) (Some 1) 0) = Inr ()
   \<and> map_of (inverse_map (ios renamed_state)) 0 = Some (Some 1, ''y.dat'')
   \<and> map_of (forward (ios renamed_state)) (Some 1, ''y.dat'') = Some 0
   \<and> io_path (io_heap renamed_state 0) = ''y.dat''
   \<and> get_io_key (Some 1) ''x.dat'' = (Some 1, ''x.dat'')
   \<and> map_of (forward (ios renamed_state)) (Some 1, ''x.dat'') = Some 0
   \<and> update_path renamed_state 0 ''x.dat'' = (Inl (ValueError ''cannot change path''), renamed_state)"
proof -
  have k: "get_io_key (Some 1) ''x.dat'' = (Some 1, ''x.dat'')" by (simp add: get_io_key_def)
  have r: "renamed_state = snd (restore_io (snd (update_path double_state 0 ''y.dat'')) (Some 1) 0)"
    by (simp add: renamed_state_def)
  have inv: "map_of (inverse_map (ios renamed_state)) 0 = Some (Some 1, ''y.dat'')"
    and fwd: "map_of (forward (ios renamed_state)) (Some 1, ''y.dat'') = Some 0"
    and tgt: "map_of (forward (ios renamed_state)) (Some 1, ''x.dat'') = Some 0"
    and pth: "io_path (io_heap renamed_state 0) = ''y.dat''"
    unfolding r renamed_state_eq by simp_all
  have up: "update_path renamed_state 0 ''x.dat'' = (Inl (ValueError ''cannot change path''), renamed_state)"
    using inv tgt k by (simp add: update_path_def contains_def)
  have c3: "fst (update_path double_state 0 ''y.dat'') = Inr ()"
    unfolding moved_state_eq by simp
  have c4: "fst (restore_io (snd (update_path double_state 0 ''y.dat'')) (Some 1) 0) = Inr ()"
    unfolding renamed_state_eq by simp
  from double_state_calls c3 c4 inv fwd pth k tgt up show ?thesis by blast
qed

text \<open>
  Claim C6, at the input where the code departs from it. The resource, restored for two
  groups, has one dependent. \<open>del_spec\<close> of that spec returns and leaves the resource
  without dependents, but \<open>_del_io\<close> removes the first key it finds only: the resource
  stays in the index under the key of group 2.
\<close>

theorem del_spec_leaves_second_key:
  "fst (restore_io restored_state (Some 1) 0) = Inr ()
   \<and> fst (restore_io (snd (restore_io restored_state (Some 1) 0)) (Some 2) 0) = Inr ()
   \<and> spec_io (spec_heap double_state 0) = Some 0
   \<and> io_specs (io_heap double_state 0) = [0]
   \<and> fst (del_spec double_state 0) = Inr ()
   \<and> io_specs (io_heap (snd (del_spec double_state 0)) 0) = []
   \<and> forward (ios (snd (del_spec double_state 0))) = [((Some 2, ''x.dat''), 0)]
   \<and> inverse_map (ios (snd (del_spec double_state 0))) = []"
  using double_state_calls
  by (simp add: double_state_eq restored_state_def init_manager_def del_spec_def del_io_def
      set_io_specs_def set_ios_def bidict_delitem_def contains_def Let_def)

text \<open>
  Claim C7, at the input where the code departs from it. With the resource restored
  for two groups, \<open>get_or_create_io\<close> with the relative path \<open>x.dat\<close> returns the same
  resource for group 1 and for group 2, and two specs created with \<open>new_spec\<close> for
  the two groups are bound to that one resource.
\<close>

theorem get_or_create_io_shares_relative:
  "fst (restore_io restored_state (Some 1) 0) = Inr ()
   \<and> fst (restore_io (snd (restore_io restored_state (Some 1) 0)) (Some 2) 0) = Inr ()
   \<and> \<not> is_absolute ''x.dat''
   \<and> get_or_create_io double_state (Some 1) ''x.dat'' None = (Inr 0, double_state)
   \<and> get_or_create_io double_state (Some 2) ''x.dat'' None = (Inr 0, double_state)
   \<and> fst (new_spec plain_hooks double_state (Some 1) ''x.dat'' None) = Inr 1
   \<and> fst (new_spec plain_hooks (snd (new_spec plain_hooks double_state (Some 1) ''x.dat'' None))
            (Some 2) ''x.dat'' None) = Inr 2
   \<and> spec_io (spec_heap (snd (new_spec plain_hooks
          (snd (new_spec plain_hooks double_state (Some 1) ''x.dat'' None))
          (Some 2) ''x.dat'' None)) 1) = Some 0
   \<and> spec_io (spec_heap (snd (new_spec plain_hooks
          (snd (new_spec plain_hooks double_state (Some 1) ''x.dat'' None))
          (Some 2) ''x.dat'' None)) 2) = Some 0"
proof -
  have g: "get_or_create_io double_state (Some 1) ''x.dat'' None = (Inr 0, double_state)"
    "get_or_create_io double_state (Some 2) ''x.dat'' None = (Inr 0, double_state)"
    by (simp_all add: get_or_create_io_def get_io_def get_io_key_def double_state_eq)
  have n: "fst (new_spec plain_hooks double_state (Some 1) ''x.dat'' None) = Inr 1
    \<and> fst (new_spec plain_hooks (snd (new_spec plain_hooks double_state (Some 1) ''x.dat'' None))
            (Some 2) ''x.dat'' None) = Inr 2
    \<and> spec_io (spec_heap (snd (new_spec plain_hooks
          (snd (new_spec plain_hooks double_state (Some 1) ''x.dat'' None))
          (Some 2) ''x.dat'' None)) 1) = Some 0
    \<and> spec_io (spec_heap (snd (new_spec plain_hooks
          (snd (new_spec plain_hooks double_state (Some 1) ''x.dat'' None))
          (Some 2) ''x.dat'' None)) 2) = Some 0"
    by (simp add: double_state_eq restored_state_def manager_defs plain_hooks_def)
  show ?thesis using double_state_calls g n by simp
qed

end
